theory Spec2Isabelle
  imports Main
begin

section \<open>Python values used by \<open>prompt_cleaner/utils.py\<close>\<close>

text \<open>
  A Python \<open>str\<close> is modelled as a \<open>string\<close>, one \<open>char\<close> per code point; the model
  therefore covers the code points 0..255. In that range the class \<open>\d\<close> of the \<open>re\<close>
  module is exactly \<open>0\<close>..\<open>9\<close>, and \<open>[0-9a-fA-F]\<close> is ASCII in every range.
  Strings are unbounded lists: the sizes at which the interpreter runs out of memory or
  of addressable length are not part of the model.
\<close>

definition is_digit :: "char \<Rightarrow> bool" where
  "is_digit c = (c \<in> set ''0123456789'')"

definition is_hex :: "char \<Rightarrow> bool" where
  "is_hex c = (c \<in> set ''0123456789abcdefABCDEF'')"

definition digit_char :: "nat \<Rightarrow> char" where
  "digit_char d = ''0123456789'' ! d"

text \<open>\<open>str(i)\<close> for an integer: the decimal digits, most significant first.\<close>

fun digits_of :: "nat \<Rightarrow> string" where
  "digits_of n = (if n < 10 then [digit_char n] else digits_of (n div 10) @ [digit_char (n mod 10)])"

declare digits_of.simps [simp del]

definition py_str :: "int \<Rightarrow> string" where
  "py_str i = (if i < 0 then CHR ''-'' # digits_of (nat (- i)) else digits_of (nat i))"

text \<open>
  \<open>str.zfill(width)\<close>: a string at least \<open>width\<close> long is returned as it is; otherwise
  zeros are inserted on the left, after a leading sign if there is one.
\<close>

definition zfill :: "string \<Rightarrow> int \<Rightarrow> string" where
  "zfill s width =
     (if width \<le> int (length s) then s
      else let fill = replicate (nat (width - int (length s))) CHR ''0''
           in (case s of
                 [] \<Rightarrow> fill
               | c # cs \<Rightarrow> if c = CHR ''+'' \<or> c = CHR ''-'' then c # fill @ cs else fill @ s))"

text \<open>
  A \<open>Dict[str, str]\<close> keeps its keys in insertion order: an association list whose keys
  are distinct. \<open>d[k] = v\<close> overwrites the value of a key in place and appends a new key;
  \<open>k in d\<close> and \<open>d[k]\<close> are \<open>map_of\<close>.
\<close>

type_synonym pydict = "(string \<times> string) list"

fun dict_set :: "'k \<Rightarrow> 'v \<Rightarrow> ('k \<times> 'v) list \<Rightarrow> ('k \<times> 'v) list" where
  "dict_set k v [] = [(k, v)]"
| "dict_set k v ((k', v') # ps) = (if k' = k then (k', v) # ps else (k', v') # dict_set k v ps)"

text \<open>\<open>d.update(e)\<close> stores the items of \<open>e\<close> into \<open>d\<close> in the order of \<open>e\<close>.\<close>

definition dict_update :: "('k \<times> 'v) list \<Rightarrow> ('k \<times> 'v) list \<Rightarrow> ('k \<times> 'v) list" where
  "dict_update d e = foldl (\<lambda>acc (k, v). dict_set k v acc) d e"

section \<open>The two regular expressions and \<open>re.sub\<close>\<close>

text \<open>
  Both patterns of the module are a sequence of single-character items around one
  group: the escaped opening separator, the group, the escaped closing separator.
  \<open>re.escape\<close> makes every character of a separator a literal.
\<close>

datatype atom = Lit char | Hex | Digit

fun atom_ok :: "atom \<Rightarrow> char \<Rightarrow> bool" where
  "atom_ok (Lit a) c = (c = a)"
| "atom_ok Hex c = is_hex c"
| "atom_ok Digit c = is_digit c"

record regex =
  re_open :: "atom list"
  re_group :: "atom list"
  re_close :: "atom list"

definition re_atoms :: "regex \<Rightarrow> atom list" where
  "re_atoms p = re_open p @ re_group p @ re_close p"

definition re_len :: "regex \<Rightarrow> nat" where
  "re_len p = length (re_atoms p)"

text \<open>\<open>match_here as s\<close>: the items match a prefix of \<open>s\<close>, one character each.\<close>

fun match_here :: "atom list \<Rightarrow> string \<Rightarrow> bool" where
  "match_here [] s = True"
| "match_here (a # as) [] = False"
| "match_here (a # as) (c # cs) = (atom_ok a c \<and> match_here as cs)"

definition re_match :: "regex \<Rightarrow> string \<Rightarrow> bool" where
  "re_match p s = match_here (re_atoms p) s"

definition group0 :: "regex \<Rightarrow> string \<Rightarrow> string" where
  "group0 p s = take (re_len p) s"

definition group1 :: "regex \<Rightarrow> string \<Rightarrow> string" where
  "group1 p s = take (length (re_group p)) (drop (length (re_open p)) s)"

text \<open>
  \<open>re.sub(pattern, repl, text)\<close> with a callable \<open>repl\<close>: the text is scanned from the
  left; where the pattern matches, the callback's result is emitted and the scan goes on
  after the match; elsewhere the character is copied. The callback receives the match
  (here \<open>group(0)\<close> and \<open>group(1)\<close>) and may change the state \<open>st\<close> it closes over.
  A pattern of length 0 matches the empty string at every position, the end included,
  and the scan then advances by one character after each match.
\<close>

function re_sub :: "regex \<Rightarrow> ('s \<Rightarrow> string \<Rightarrow> string \<Rightarrow> string \<times> 's) \<Rightarrow> 's \<Rightarrow> string \<Rightarrow> string \<times> 's" where
  "re_sub p f st [] = (if re_match p [] then f st [] [] else ([], st))"
| "re_sub p f st (c # cs) =
     (if re_match p (c # cs) then
        (case f st (group0 p (c # cs)) (group1 p (c # cs)) of (r, st1) \<Rightarrow>
           (if re_len p = 0
            then (case re_sub p f st1 cs of (out, st2) \<Rightarrow> (r @ c # out, st2))
            else (case re_sub p f st1 (drop (re_len p) (c # cs)) of (out, st2) \<Rightarrow> (r @ out, st2))))
      else (case re_sub p f st cs of (out, st1) \<Rightarrow> (c # out, st1)))"
  by pat_completeness auto
termination
  by (relation "measure (\<lambda>(p, f, st, s). length s)") auto

declare re_sub.simps [simp del]

section \<open>\<open>UUIDReplacer\<close>\<close>

record replacer =
  sep :: string
  nr_digits :: int
  uuid_mapping :: pydict
  counter :: int
  close_sep :: string
  pattern :: regex

definition closing :: "string \<Rightarrow> string" where
  "closing s =
     (case map_of [(''['', '']''), (''('', '')''), (''{'', ''}''), (''<'', ''>'')] s of
        Some c \<Rightarrow> c
      | None \<Rightarrow> s)"

text \<open>\<open>[0-9a-fA-F]{8}-[0-9a-fA-F]{4}-[0-9a-fA-F]{4}-[0-9a-fA-F]{4}-[0-9a-fA-F]{12}\<close>\<close>

definition uuid_pattern :: "atom list" where
  "uuid_pattern =
     replicate 8 Hex @ [Lit CHR ''-''] @ replicate 4 Hex @ [Lit CHR ''-''] @
     replicate 4 Hex @ [Lit CHR ''-''] @ replicate 4 Hex @ [Lit CHR ''-''] @ replicate 12 Hex"

definition UUIDReplacer_init :: "string \<Rightarrow> int \<Rightarrow> replacer" where
  "UUIDReplacer_init s n =
     \<lparr>sep = s, nr_digits = n, uuid_mapping = [], counter = 0, close_sep = closing s,
      pattern = \<lparr>re_open = map Lit s, re_group = uuid_pattern, re_close = map Lit (closing s)\<rparr>\<rparr>"

definition generate_replacement :: "replacer \<Rightarrow> string \<times> replacer" where
  "generate_replacement R =
     (zfill (py_str (counter R)) (nr_digits R), R\<lparr>counter := counter R + 1\<rparr>)"

text \<open>
  \<open>_is_valid_uuid\<close> is \<open>uuid.UUID(uuid_str)\<close> under \<open>try/except ValueError\<close>. The
  standard library removes \<open>urn:\<close> and \<open>uuid:\<close>, strips braces from both ends, removes
  the hyphens, demands 32 remaining characters and parses them with \<open>int(hex, 16)\<close>.
  The last step is modelled as "all are hexadecimal digits": the other forms \<open>int\<close>
  accepts (a sign, a \<open>0x\<close> prefix, underscores, surrounding blanks) contain a character
  that the pattern above never lets through to the validator.
\<close>

fun remove_all :: "string \<Rightarrow> string \<Rightarrow> string" where
  "remove_all old [] = []"
| "remove_all old (c # cs) =
     (if old \<noteq> [] \<and> take (length old) (c # cs) = old
      then remove_all old (drop (length old) (c # cs))
      else c # remove_all old cs)"

definition py_strip :: "string \<Rightarrow> string \<Rightarrow> string" where
  "py_strip chars s =
     rev (dropWhile (\<lambda>c. c \<in> set chars) (rev (dropWhile (\<lambda>c. c \<in> set chars) s)))"

definition is_valid_uuid :: "string \<Rightarrow> bool" where
  "is_valid_uuid uuid_str =
     (let hex = remove_all ''uuid:'' (remove_all ''urn:'' uuid_str);
          hex = remove_all ''-'' (py_strip ''{}'' hex)
      in length hex = 32 \<and> list_all is_hex hex)"

definition replace_match :: "replacer \<Rightarrow> string \<Rightarrow> string \<Rightarrow> string \<times> replacer" where
  "replace_match R g0 uuid_str =
     (if \<not> is_valid_uuid uuid_str then (g0, R)
      else (case map_of (uuid_mapping R) uuid_str of
              Some replacement \<Rightarrow> (sep R @ replacement @ close_sep R, R)
            | None \<Rightarrow>
                (case generate_replacement R of (replacement, R1) \<Rightarrow>
                   (sep R1 @ replacement @ close_sep R1,
                    R1\<lparr>uuid_mapping := dict_set uuid_str replacement (uuid_mapping R1)\<rparr>))))"

text \<open>
  \<open>replace_uuids\<close> returns the text, a copy of the mapping, and the instance as the
  call leaves it.
\<close>

definition replace_uuids :: "replacer \<Rightarrow> string \<Rightarrow> (string \<times> pydict) \<times> replacer" where
  "replace_uuids R text =
     (case re_sub (pattern R) replace_match R text of
        (modified_text, R1) \<Rightarrow> ((modified_text, uuid_mapping R1), R1))"

definition reset :: "replacer \<Rightarrow> replacer" where
  "reset R = R\<lparr>uuid_mapping := [], counter := 0\<rparr>"

definition clean_prompt :: "string \<Rightarrow> string \<Rightarrow> int \<Rightarrow> string \<times> pydict" where
  "clean_prompt prompt s n = fst (replace_uuids (UUIDReplacer_init s n) prompt)"

section \<open>\<open>restore_output\<close>\<close>

text \<open>
  The pattern is \<open>sep(\d{nr_digits})close_sep\<close> with \<open>nr_digits\<close> printed into it.
  The pattern compiler of \<open>re\<close> raises \<open>OverflowError\<close> for a repetition count of
  \<open>MAXREPEAT\<close> (4294967295 on 64-bit CPython) or more. A negative number is no
  repetition count: \<open>{-1}\<close> is read as the literal characters, after a single \<open>\d\<close>.
\<close>

datatype error = OverflowError

definition MAXREPEAT :: int where
  "MAXREPEAT = 4294967295"

definition digit_pattern :: "string \<Rightarrow> string \<Rightarrow> int \<Rightarrow> error + regex" where
  "digit_pattern s c n =
     (if MAXREPEAT \<le> n then Inl OverflowError
      else Inr \<lparr>re_open = map Lit s,
                re_group = (if n < 0 then Digit # map Lit (''{'' @ py_str n @ ''}'')
                            else replicate (nat n) Digit),
                re_close = map Lit c\<rparr>)"

text \<open>\<open>{v: k for k, v in mapping.items()}\<close>: a later key replaces an earlier one.\<close>

definition reverse_mapping :: "pydict \<Rightarrow> pydict" where
  "reverse_mapping m = foldl (\<lambda>acc (k, v). dict_set v k acc) [] m"

definition restore_match :: "string \<Rightarrow> string \<Rightarrow> pydict \<Rightarrow> string \<Rightarrow> string \<Rightarrow> string" where
  "restore_match s c rm g0 digit_str =
     (case map_of rm digit_str of
        Some uuid_str \<Rightarrow> s @ uuid_str @ c
      | None \<Rightarrow> g0)"

definition restore_output :: "string \<Rightarrow> pydict \<Rightarrow> string \<Rightarrow> int \<Rightarrow> error + string" where
  "restore_output output mapping s n =
     (let c = closing s; rm = reverse_mapping mapping
      in (case digit_pattern s c n of
            Inl e \<Rightarrow> Inl e
          | Inr p \<Rightarrow> Inr (fst (re_sub p (\<lambda>st g0 g1. (restore_match s c rm g0 g1, st)) () output))))"

section \<open>\<open>process_messages\<close>\<close>

text \<open>
  A message is a dictionary object with \<open>str\<close> keys; the list holds references to such
  objects. The
  store is the list of all dictionary objects, a reference is an index into it, and
  \<open>message.copy()\<close> allocates a new object at the end. A value is a \<open>str\<close> or anything
  else.
\<close>

datatype 'v pyval = Str string | NonStr 'v

type_synonym 'v message = "string \<Rightarrow> 'v pyval option"

type_synonym 'v heap = "'v message list"

fun process_loop ::
  "replacer \<Rightarrow> 'v heap \<Rightarrow> nat list \<Rightarrow> pydict \<Rightarrow> nat list \<Rightarrow> 'v heap \<times> nat list \<times> pydict" where
  "process_loop R h processed_messages all_mappings [] = (h, processed_messages, all_mappings)"
| "process_loop R h processed_messages all_mappings (message # rest) =
     (let processed_message = length h;
          h1 = h @ [h ! message]
      in (case (h ! message) ''content'' of
            Some (Str content) \<Rightarrow>
              (case replace_uuids R content of
                 ((processed_content, mappings), R1) \<Rightarrow>
                   process_loop R1
                     (h1[processed_message := (h1 ! processed_message)(''content'' \<mapsto> Str processed_content)])
                     (processed_messages @ [processed_message])
                     (dict_update all_mappings mappings) rest)
          | _ \<Rightarrow> process_loop R h1 (processed_messages @ [processed_message]) all_mappings rest))"

definition process_messages ::
  "'v heap \<Rightarrow> nat list \<Rightarrow> string \<Rightarrow> int \<Rightarrow> 'v heap \<times> nat list \<times> pydict" where
  "process_messages h messages s n = process_loop (UUIDReplacer_init s n) h [] [] messages"

section \<open>Notions used to state the properties\<close>

text \<open>The number a string of decimal digits denotes.\<close>

definition digit_val :: "char \<Rightarrow> nat" where
  "digit_val c = length (takeWhile (\<lambda>d. d \<noteq> c) ''0123456789'')"

definition parse_nat :: "string \<Rightarrow> nat" where
  "parse_nat s = foldl (\<lambda>a c. 10 * a + digit_val c) 0 s"

text \<open>The placeholder of ordinal \<open>i\<close> at width \<open>w\<close>: \<open>str(i).zfill(w)\<close>.\<close>

definition placeholder :: "int \<Rightarrow> nat \<Rightarrow> string" where
  "placeholder w i = zfill (py_str (int i)) w"

text \<open>The shape \<open>XXXXXXXX-XXXX-XXXX-XXXX-XXXXXXXXXXXX\<close>, \<open>X\<close> a hexadecimal digit of either case.\<close>

definition uuid_shape :: "string \<Rightarrow> bool" where
  "uuid_shape u =
     (length u = 36
      \<and> list_all is_hex (take 8 u) \<and> u ! 8 = CHR ''-''
      \<and> list_all is_hex (take 4 (drop 9 u)) \<and> u ! 13 = CHR ''-''
      \<and> list_all is_hex (take 4 (drop 14 u)) \<and> u ! 18 = CHR ''-''
      \<and> list_all is_hex (take 4 (drop 19 u)) \<and> u ! 23 = CHR ''-''
      \<and> list_all is_hex (drop 24 u))"

text \<open>A pattern whose separators are literal strings.\<close>

definition lit_regex :: "string \<Rightarrow> atom list \<Rightarrow> string \<Rightarrow> regex" where
  "lit_regex s g c = \<lparr>re_open = map Lit s, re_group = g, re_close = map Lit c\<rparr>"

text \<open>
  What the scan of \<open>re.sub\<close> sees in a text, from left to right: a character that
  is copied, or a match with its \<open>group(0)\<close> and \<open>group(1)\<close>. \<open>emit\<close> runs a callback
  over these.
\<close>

datatype token = Chr char | Match string string

function tokens :: "regex \<Rightarrow> string \<Rightarrow> token list" where
  "tokens p [] = (if re_match p [] then [Match [] []] else [])"
| "tokens p (c # cs) =
     (if re_match p (c # cs) then
        Match (group0 p (c # cs)) (group1 p (c # cs)) #
          (if re_len p = 0 then Chr c # tokens p cs else tokens p (drop (re_len p) (c # cs)))
      else Chr c # tokens p cs)"
  by pat_completeness auto
termination
  by (relation "measure (\<lambda>(p, s). length s)") auto

declare tokens.simps [simp del]

fun emit :: "('s \<Rightarrow> string \<Rightarrow> string \<Rightarrow> string \<times> 's) \<Rightarrow> 's \<Rightarrow> token list \<Rightarrow> string \<times> 's" where
  "emit f st [] = ([], st)"
| "emit f st (Chr c # ts) = (case emit f st ts of (out, st1) \<Rightarrow> (c # out, st1))"
| "emit f st (Match g0 g1 # ts) =
     (case f st g0 g1 of (r, st1) \<Rightarrow> (case emit f st1 ts of (out, st2) \<Rightarrow> (r @ out, st2)))"

text \<open>The identifiers the scan meets, in order: \<open>group(1)\<close> of the matches that the validator accepts.\<close>

fun identifiers :: "token list \<Rightarrow> string list" where
  "identifiers [] = []"
| "identifiers (Chr c # ts) = identifiers ts"
| "identifiers (Match g0 u # ts) = (if is_valid_uuid u then u # identifiers ts else identifiers ts)"

text \<open>A list without its repetitions, each element at its first occurrence.\<close>

definition first_seen :: "'a list \<Rightarrow> 'a list" where
  "first_seen xs = rev (remdups (rev xs))"

text \<open>
  The text in which every match is replaced by the placeholder a fixed mapping \<open>M\<close> gives
  its identifier (a match with no entry, or one the validator rejects, stays).
\<close>

definition fill_in :: "string \<Rightarrow> string \<Rightarrow> pydict \<Rightarrow> string \<Rightarrow> string \<Rightarrow> string" where
  "fill_in s c M g0 u =
     (if is_valid_uuid u then (case map_of M u of Some r \<Rightarrow> s @ r @ c | None \<Rightarrow> g0) else g0)"

definition substitute_tokens :: "string \<Rightarrow> string \<Rightarrow> pydict \<Rightarrow> token list \<Rightarrow> string" where
  "substitute_tokens s c M ts = fst (emit (\<lambda>st g0 u. (fill_in s c M g0 u, st)) () ts)"

definition substitute :: "replacer \<Rightarrow> pydict \<Rightarrow> string \<Rightarrow> string" where
  "substitute R M text = substitute_tokens (sep R) (close_sep R) M (tokens (pattern R) text)"

text \<open>The configuration fields of two replacer states agree.\<close>

definition same_config :: "replacer \<Rightarrow> replacer \<Rightarrow> bool" where
  "same_config R R1 =
     (sep R1 = sep R \<and> close_sep R1 = close_sep R \<and> nr_digits R1 = nr_digits R \<and> pattern R1 = pattern R)"

text \<open>
  The state of a replacer that has only been used through \<open>replace_uuids\<close>: the counter
  is the size of the mapping and the \<open>i\<close>-th entry holds the placeholder of ordinal \<open>i\<close>.
\<close>

definition numbered :: "replacer \<Rightarrow> bool" where
  "numbered R =
     (counter R = int (length (uuid_mapping R))
      \<and> distinct (map fst (uuid_mapping R))
      \<and> map snd (uuid_mapping R) = map (placeholder (nr_digits R)) [0..<length (uuid_mapping R)])"

text \<open>A sequence of \<open>replace_uuids\<close> calls on one instance: the results, and the instance afterwards.\<close>

fun replace_calls :: "replacer \<Rightarrow> string list \<Rightarrow> (string \<times> pydict) list \<times> replacer" where
  "replace_calls R [] = ([], R)"
| "replace_calls R (text # texts) =
     (case replace_uuids R text of
        (res, R1) \<Rightarrow> (case replace_calls R1 texts of (rs, R2) \<Rightarrow> (res # rs, R2)))"

text \<open>The cumulative concatenations of a list of lists.\<close>

fun running :: "'a list \<Rightarrow> 'a list list \<Rightarrow> 'a list list" where
  "running acc [] = []"
| "running acc (x # xs) = (acc @ x) # running (acc @ x) xs"

text \<open>The mapping for identifiers met in the order \<open>ids\<close>: first-seen order, numbered from 0.\<close>

definition expected_mapping :: "int \<Rightarrow> string list \<Rightarrow> pydict" where
  "expected_mapping w ids =
     zip (first_seen ids) (map (placeholder w) [0..<length (first_seen ids)])"

text \<open>\<open>str.lower\<close> and \<open>str.upper\<close> on the characters a UUID can hold.\<close>

definition lower_hex :: "char \<Rightarrow> char" where
  "lower_hex c =
     (case map_of (zip ''ABCDEF'' ''abcdef'') c of Some d \<Rightarrow> d | None \<Rightarrow> c)"

definition upper_hex :: "char \<Rightarrow> char" where
  "upper_hex c =
     (case map_of (zip ''abcdef'' ''ABCDEF'') c of Some d \<Rightarrow> d | None \<Rightarrow> c)"

text \<open>
  A text cut into pieces: a character that is copied, or a span \<open>sep\<close> + digits +
  \<open>close_sep\<close>, given by its digits.
\<close>

datatype piece = Copy char | Span string

fun render_piece :: "string \<Rightarrow> piece \<Rightarrow> string" where
  "render_piece s (Copy x) = [x]"
| "render_piece s (Span d) = s @ d @ closing s"

definition render :: "string \<Rightarrow> piece list \<Rightarrow> string" where
  "render s ps = concat (map (render_piece s) ps)"

text \<open>\<open>span_here s n t\<close>: the text \<open>t\<close> starts with \<open>sep\<close>, exactly \<open>n\<close> digits and \<open>close_sep\<close>.\<close>

definition span_here :: "string \<Rightarrow> int \<Rightarrow> string \<Rightarrow> bool" where
  "span_here s n t =
     (let d = take (nat n) (drop (length s) t)
      in take (length s) t = s \<and> length d = nat n \<and> list_all is_digit d
         \<and> take (length (closing s)) (drop (length s + nat n) t) = closing s)"

text \<open>
  The cut the scan makes: every span piece has \<open>n\<close> digits, and no span starts at a
  character that is copied.
\<close>

fun scan_cut :: "string \<Rightarrow> int \<Rightarrow> piece list \<Rightarrow> bool" where
  "scan_cut s n [] = True"
| "scan_cut s n (Copy x # ps) = (\<not> span_here s n (x # render s ps) \<and> scan_cut s n ps)"
| "scan_cut s n (Span d # ps) = (int (length d) = n \<and> list_all is_digit d \<and> scan_cut s n ps)"

text \<open>The identifier a placeholder stands for in a mapping: the last key that holds it.\<close>

fun key_of :: "pydict \<Rightarrow> string \<Rightarrow> string option" where
  "key_of [] d = None"
| "key_of ((k, v) # M) d =
     (case key_of M d of Some k' \<Rightarrow> Some k' | None \<Rightarrow> if v = d then Some k else None)"

fun restore_piece :: "string \<Rightarrow> pydict \<Rightarrow> piece \<Rightarrow> string" where
  "restore_piece s M (Copy x) = [x]"
| "restore_piece s M (Span d) =
     (case key_of M d of Some u \<Rightarrow> s @ u @ closing s | None \<Rightarrow> s @ d @ closing s)"

text \<open>The \<open>str\<close> contents of a list of messages, in order.\<close>

definition contents :: "'v message list \<Rightarrow> string list" where
  "contents ms = concat (map (\<lambda>m. case m ''content'' of Some (Str c) \<Rightarrow> [c] | _ \<Rightarrow> []) ms)"

text \<open>
  A message whose \<open>content\<close> is a \<open>str\<close>, with the identifiers of that string replaced
  through the mapping \<open>M\<close>; any other message as it is.
\<close>

definition transform :: "replacer \<Rightarrow> pydict \<Rightarrow> 'v message \<Rightarrow> 'v message" where
  "transform R M m =
     (case m ''content'' of
        Some (Str c) \<Rightarrow> m(''content'' \<mapsto> Str (substitute R M c))
      | _ \<Rightarrow> m)"

text \<open>The messages with their \<open>str\<close> contents replaced, in order, by the given strings.\<close>

fun fill_contents :: "'v message list \<Rightarrow> string list \<Rightarrow> 'v message list" where
  "fill_contents [] outs = []"
| "fill_contents (m # ms) outs =
     (case m ''content'' of
        Some (Str c) \<Rightarrow>
          (case outs of
             [] \<Rightarrow> m # fill_contents ms []
           | out # rest \<Rightarrow> m(''content'' \<mapsto> Str out) # fill_contents ms rest)
      | _ \<Rightarrow> m # fill_contents ms outs)"

section \<open>Placeholder generation\<close>

lemma digit_val_digit_char: "d < 10 \<Longrightarrow> digit_val (digit_char d) = d"
proof -
  assume "d < 10"
  then have "d \<in> {0,1,2,3,4,5,6,7,8,9}" by auto
  then show ?thesis
    by (auto simp: digit_val_def digit_char_def)
qed

lemma is_digit_digit_char: "d < 10 \<Longrightarrow> is_digit (digit_char d)"
proof -
  assume "d < 10"
  then have "d \<in> {0,1,2,3,4,5,6,7,8,9}" by auto
  then show ?thesis
    by (auto simp: is_digit_def digit_char_def)
qed

lemma parse_nat_snoc: "parse_nat (s @ [c]) = 10 * parse_nat s + digit_val c"
  by (simp add: parse_nat_def)

lemma parse_nat_digits_of: "parse_nat (digits_of n) = n"
proof (induction n rule: digits_of.induct)
  case (1 n)
  show ?case
  proof (cases "n < 10")
    case True
    then show ?thesis
      by (subst digits_of.simps) (simp add: parse_nat_def digit_val_digit_char)
  next
    case False
    with 1 show ?thesis
      by (subst digits_of.simps) (simp add: parse_nat_snoc digit_val_digit_char)
  qed
qed

lemma digits_of_all_digits: "list_all is_digit (digits_of n)"
proof (induction n rule: digits_of.induct)
  case (1 n)
  show ?case
  proof (cases "n < 10")
    case True
    then show ?thesis
      by (subst digits_of.simps) (simp add: is_digit_digit_char)
  next
    case False
    with 1 show ?thesis
      by (subst digits_of.simps) (simp add: is_digit_digit_char)
  qed
qed

lemma digits_of_nonempty: "digits_of n \<noteq> []"
  by (subst digits_of.simps) simp

lemma length_digits_of_le: "0 < k \<Longrightarrow> length (digits_of n) \<le> k \<longleftrightarrow> n < 10 ^ k"
proof (induction n arbitrary: k rule: digits_of.induct)
  case (1 n)
  show ?case
  proof (cases "n < 10")
    case True
    have "(10::nat) ^ 1 \<le> 10 ^ k" using 1(2) by (intro power_increasing) auto
    with True have "n < 10 ^ k" by simp
    with True 1(2) show ?thesis
      by (subst digits_of.simps) (simp add: Suc_le_eq)
  next
    case False
    show ?thesis
    proof (cases k)
      case 0
      with 1(2) show ?thesis by simp
    next
      case (Suc j)
      show ?thesis
      proof (cases "j = 0")
        case True
        with Suc False show ?thesis
          using digits_of_nonempty [of "n div 10"]
          by (subst digits_of.simps) (simp add: Suc_le_eq)
      next
        case jpos: False
        then have "length (digits_of (n div 10)) \<le> j \<longleftrightarrow> n div 10 < 10 ^ j"
          using 1(1) [OF False, of j] by simp
        moreover have "n div 10 < 10 ^ j \<longleftrightarrow> n < 10 ^ Suc j"
          by (simp add: div_less_iff_less_mult mult.commute)
        ultimately show ?thesis using False Suc
          by (subst digits_of.simps) simp
      qed
    qed
  qed
qed

lemma parse_nat_zeros: "parse_nat (replicate k CHR ''0'' @ s) = parse_nat s"
proof -
  have z: "foldl (\<lambda>a c. 10 * a + digit_val c) 0 (replicate k CHR ''0'') = 0"
    by (induction k) (simp_all add: digit_val_def)
  show ?thesis by (simp add: parse_nat_def z)
qed

lemma is_digit_not_sign: "is_digit c \<Longrightarrow> c \<noteq> CHR ''+'' \<and> c \<noteq> CHR ''-''"
  by (auto simp: is_digit_def)

lemma zfill_digits:
  "zfill (digits_of m) w = replicate (nat w - length (digits_of m)) CHR ''0'' @ digits_of m"
proof (cases "digits_of m")
  case Nil
  then show ?thesis using digits_of_nonempty by simp
next
  case (Cons c cs)
  have "is_digit c" using digits_of_all_digits [of m] Cons by simp
  then have "c \<noteq> CHR ''+''" "c \<noteq> CHR ''-''" using is_digit_not_sign by auto
  moreover have "nat (w - int (length (digits_of m))) = nat w - length (digits_of m)"
    by simp
  ultimately show ?thesis
    unfolding zfill_def Let_def using Cons
    by (auto simp: nat_diff_distrib')
qed

lemma placeholder_eq: "placeholder w i = replicate (nat w - length (digits_of i)) CHR ''0'' @ digits_of i"
  by (simp add: placeholder_def py_str_def zfill_digits)

lemma parse_nat_placeholder: "parse_nat (placeholder w i) = i"
  by (simp add: placeholder_eq parse_nat_zeros parse_nat_digits_of)

lemma placeholder_inj: "placeholder w i = placeholder w j \<Longrightarrow> i = j"
  by (metis parse_nat_placeholder)




section \<open>Matching\<close>

lemma match_here_length: "match_here as s \<Longrightarrow> length as \<le> length s"
  by (induction as s rule: match_here.induct) auto

lemma match_here_append:
  "match_here (as @ bs) s \<longleftrightarrow> match_here as s \<and> match_here bs (drop (length as) s)"
  by (induction as s rule: match_here.induct) auto

lemma match_here_lits: "match_here (map Lit l) s \<longleftrightarrow> take (length l) s = l"
proof (induction l arbitrary: s)
  case Nil
  then show ?case by simp
next
  case (Cons a l)
  then show ?case by (cases s) auto
qed

lemma match_here_replicate:
  "match_here (replicate n a) s \<longleftrightarrow> n \<le> length s \<and> list_all (atom_ok a) (take n s)"
proof (induction n arbitrary: s)
  case 0
  then show ?case by simp
next
  case (Suc n)
  then show ?case by (cases s) auto
qed

lemma match_here_Cons:
  "match_here (a # as) s \<longleftrightarrow> s \<noteq> [] \<and> atom_ok a (hd s) \<and> match_here as (drop 1 s)"
  by (cases s) auto

lemma match_here_take: "match_here as s \<Longrightarrow> match_here as (take (length as) s)"
  by (induction as s rule: match_here.induct) auto

lemma match_here_prefix: "match_here as s \<Longrightarrow> match_here as (s @ t)"
  by (induction as s rule: match_here.induct) auto

lemma match_here_appendI: "length s = length as \<Longrightarrow> match_here as (s @ t) \<longleftrightarrow> match_here as s"
  by (induction as s rule: match_here.induct) auto

lemma uuid_shape_match: "uuid_shape u \<longleftrightarrow> length u = 36 \<and> match_here uuid_pattern u"
proof (cases "length u = 36")
  case False
  then show ?thesis by (simp add: uuid_shape_def)
next
  case True
  have hex: "atom_ok Hex = is_hex" by (rule ext) simp
  have d: "\<And>k. k < 36 \<Longrightarrow> drop k u \<noteq> [] \<and> hd (drop k u) = u ! k"
    using True by (simp add: hd_drop_conv_nth)
  have "take 12 (drop 24 u) = drop 24 u" using True by simp
  then show ?thesis
    using True
    by (simp add: uuid_shape_def uuid_pattern_def match_here_append match_here_replicate hex d
        match_here_Cons del: replicate_Suc)
qed

subsection \<open>The validator accepts what the pattern lets through\<close>

lemma is_hex_not_others:
  "is_hex c \<Longrightarrow> c \<noteq> CHR ''-'' \<and> c \<noteq> CHR ''u'' \<and> c \<noteq> CHR ''{'' \<and> c \<noteq> CHR ''}''"
  by (auto simp: is_hex_def)

lemma remove_all_absent: "old \<noteq> [] \<Longrightarrow> hd old \<notin> set s \<Longrightarrow> remove_all old s = s"
proof (induction s)
  case Nil
  then show ?case by simp
next
  case (Cons c cs)
  then have "take (length old) (c # cs) \<noteq> old"
    by (cases old) auto
  with Cons show ?case by simp
qed

lemma remove_all_char: "remove_all [x] s = filter (\<lambda>c. c \<noteq> x) s"
  by (induction s) auto

lemma py_strip_absent: "set s \<inter> set chars = {} \<Longrightarrow> py_strip chars s = s"
proof -
  assume a: "set s \<inter> set chars = {}"
  have "\<And>t. set t \<inter> set chars = {} \<Longrightarrow> dropWhile (\<lambda>c. c \<in> set chars) t = t"
    by (simp add: dropWhile_eq_self_iff disjoint_iff hd_in_set)
  then show ?thesis using a by (simp add: py_strip_def)
qed

lemma match_here_chars:
  "match_here as s \<Longrightarrow> length s = length as \<Longrightarrow> set as \<subseteq> {Hex, Lit CHR ''-''} \<Longrightarrow>
   (\<forall>c \<in> set s. is_hex c \<or> c = CHR ''-'')
   \<and> list_all is_hex (filter (\<lambda>c. c \<noteq> CHR ''-'') s)
   \<and> length (filter (\<lambda>c. c \<noteq> CHR ''-'') s) = length (filter (\<lambda>a. a = Hex) as)"
proof (induction as s rule: match_here.induct)
  case (1 s)
  then show ?case by simp
next
  case (2 a as)
  then show ?case by simp
next
  case (3 a as c cs)
  then have ih: "(\<forall>c \<in> set cs. is_hex c \<or> c = CHR ''-'')
   \<and> list_all is_hex (filter (\<lambda>c. c \<noteq> CHR ''-'') cs)
   \<and> length (filter (\<lambda>c. c \<noteq> CHR ''-'') cs) = length (filter (\<lambda>a. a = Hex) as)"
    by simp
  from 3 have "a = Hex \<or> a = Lit CHR ''-''" by auto
  then show ?case
  proof
    assume "a = Hex"
    with 3(2) have "is_hex c" by simp
    with ih \<open>a = Hex\<close> show ?thesis using is_hex_not_others [of c] by simp
  next
    assume "a = Lit CHR ''-''"
    with 3(2) have "c = CHR ''-''" by simp
    with ih \<open>a = Lit CHR ''-''\<close> show ?thesis by simp
  qed
qed

lemma uuid_shape_valid:
  assumes "uuid_shape u"
  shows "is_valid_uuid u"
proof -
  from assms have len: "length u = 36" and m: "match_here uuid_pattern u"
    by (simp_all add: uuid_shape_match)
  have sub: "set uuid_pattern \<subseteq> {Hex, Lit CHR ''-''}"
    by (auto simp: uuid_pattern_def)
  have "length uuid_pattern = 36" by (simp add: uuid_pattern_def)
  with len have len': "length u = length uuid_pattern" by simp
  note facts = match_here_chars [OF m len' sub]
  have chars: "\<forall>c \<in> set u. is_hex c \<or> c = CHR ''-''" using facts by blast
  have "CHR ''u'' \<notin> set u" using chars is_hex_not_others by auto
  then have r1: "remove_all ''urn:'' u = u" and r2: "remove_all ''uuid:'' u = u"
    by (simp_all add: remove_all_absent)
  have "set u \<inter> set ''{}'' = {}" using chars is_hex_not_others by auto
  then have r3: "py_strip ''{}'' u = u" by (rule py_strip_absent)
  have "length (filter (\<lambda>a. a = Hex) uuid_pattern) = 32"
    by (simp add: uuid_pattern_def)
  with facts show ?thesis
    by (simp add: is_valid_uuid_def r1 r2 r3 remove_all_char)
qed

subsection \<open>A match is a delimited span\<close>

lemma re_len_lit [simp]: "re_len (lit_regex s g c) = length s + length g + length c"
  by (simp add: re_len_def re_atoms_def lit_regex_def)

lemma re_match_lit:
  "re_match (lit_regex s g c) t \<longleftrightarrow>
     (\<exists>u rest. t = s @ u @ c @ rest \<and> length u = length g \<and> match_here g u)"
proof
  assume m: "re_match (lit_regex s g c) t"
  then have a: "take (length s) t = s" and b: "match_here g (drop (length s) t)"
    and c: "take (length c) (drop (length g) (drop (length s) t)) = c"
    by (simp_all add: re_match_def re_atoms_def lit_regex_def match_here_append match_here_lits)
  let ?u = "take (length g) (drop (length s) t)"
  let ?rest = "drop (length c) (drop (length g) (drop (length s) t))"
  have "length g \<le> length (drop (length s) t)" using b by (rule match_here_length)
  then have lu: "length ?u = length g" by simp
  have "t = take (length s) t @ ?u @ take (length c) (drop (length g) (drop (length s) t)) @ ?rest"
    by (simp only: append_take_drop_id)
  then have "t = s @ ?u @ c @ ?rest" using a c by simp
  moreover have "match_here g ?u" using b match_here_take by blast
  ultimately show "\<exists>u rest. t = s @ u @ c @ rest \<and> length u = length g \<and> match_here g u"
    using lu by blast
next
  assume "\<exists>u rest. t = s @ u @ c @ rest \<and> length u = length g \<and> match_here g u"
  then obtain u rest where t: "t = s @ u @ c @ rest" and l: "length u = length g"
    and m: "match_here g u" by blast
  show "re_match (lit_regex s g c) t"
    using l m
    by (simp add: t re_match_def re_atoms_def lit_regex_def match_here_append match_here_lits
        match_here_prefix)
qed

lemma groups_lit:
  "length u = length g \<Longrightarrow>
   group0 (lit_regex s g c) (s @ u @ c @ rest) = s @ u @ c
   \<and> group1 (lit_regex s g c) (s @ u @ c @ rest) = u
   \<and> drop (re_len (lit_regex s g c)) (s @ u @ c @ rest) = rest"
  by (simp add: group0_def group1_def) (simp add: lit_regex_def)

subsection \<open>The scan\<close>

lemma re_sub_no_match:
  "(\<And>i. \<not> re_match p (drop i s)) \<Longrightarrow> re_sub p f st s = (s, st)"
proof (induction s)
  case Nil
  from Nil [of 0] show ?case by (simp add: re_sub.simps)
next
  case (Cons c cs)
  have "\<not> re_match p (c # cs)" using Cons.prems [of 0] by simp
  moreover have "re_sub p f st cs = (cs, st)"
  proof (rule Cons.IH)
    fix i show "\<not> re_match p (drop i cs)" using Cons.prems [of "Suc i"] by simp
  qed
  ultimately show ?case by (simp add: re_sub.simps)
qed

lemma init_pattern: "pattern (UUIDReplacer_init s n) = lit_regex s uuid_pattern (closing s)"
  by (simp add: UUIDReplacer_init_def lit_regex_def)

text \<open>
  C4. A text with no substring \<open>sep\<close> + UUID shape + \<open>close_sep\<close> is returned by
  \<open>clean_prompt\<close> (a fresh replacer) as it is, with an empty mapping.
\<close>

theorem clean_prompt_pass_through:
  assumes "\<not> (\<exists>pre u post. T = pre @ s @ u @ closing s @ post \<and> uuid_shape u)"
  shows "clean_prompt T s n = (T, [])"
proof -
  have "\<not> re_match (lit_regex s uuid_pattern (closing s)) (drop i T)" for i
  proof
    assume "re_match (lit_regex s uuid_pattern (closing s)) (drop i T)"
    then obtain u rest where d: "drop i T = s @ u @ closing s @ rest"
      and l: "length u = length uuid_pattern" and m: "match_here uuid_pattern u"
      by (auto simp: re_match_lit)
    have "length uuid_pattern = 36" by (simp add: uuid_pattern_def)
    with l m have "uuid_shape u" by (simp add: uuid_shape_match)
    moreover have "T = take i T @ s @ u @ closing s @ rest"
      using d by (metis append_take_drop_id)
    ultimately show False using assms by blast
  qed
  then have "re_sub (lit_regex s uuid_pattern (closing s)) replace_match (UUIDReplacer_init s n) T
      = (T, UUIDReplacer_init s n)"
    by (rule re_sub_no_match)
  then show ?thesis
    by (simp add: clean_prompt_def replace_uuids_def init_pattern) (simp add: UUIDReplacer_init_def)
qed

theorem clean_prompt_pass_through_witness:
  "clean_prompt ''[not-a-uuid]'' ''['' 2 = (''[not-a-uuid]'', [])"
proof (rule clean_prompt_pass_through)
  show "\<not> (\<exists>pre u post. ''[not-a-uuid]'' = pre @ ''['' @ u @ closing ''['' @ post \<and> uuid_shape u)"
  proof
    assume "\<exists>pre u post. ''[not-a-uuid]'' = pre @ ''['' @ u @ closing ''['' @ post \<and> uuid_shape u"
    then obtain pre u post where e: "''[not-a-uuid]'' = pre @ ''['' @ u @ closing ''['' @ post"
      and "uuid_shape u" by blast
    then have "length u = 36" by (simp add: uuid_shape_def)
    moreover have "length ''[not-a-uuid]'' = length (pre @ ''['' @ u @ closing ''['' @ post)"
      using e by simp
    ultimately show False by simp
  qed
qed

section \<open>Replacement\<close>

lemma re_sub_tokens: "re_sub p f st s = emit f st (tokens p s)"
proof (induction p s arbitrary: st rule: tokens.induct)
  case (1 p)
  show ?case
    by (simp add: re_sub.simps tokens.simps group0_def group1_def split: prod.splits)
next
  case (2 p c cs)
  show ?case
  proof (cases "re_match p (c # cs)")
    case False
    with 2(3) show ?thesis
      by (simp add: re_sub.simps(2) [of p f st c cs] tokens.simps(2) [of p c cs])
  next
    case True
    show ?thesis
    proof (cases "re_len p = 0")
      case z: True
      with True 2(1) show ?thesis
        by (simp add: re_sub.simps(2) [of p f st c cs] tokens.simps(2) [of p c cs] split: prod.splits)
    next
      case nz: False
      with True 2(2) show ?thesis
        by (simp add: re_sub.simps(2) [of p f st c cs] tokens.simps(2) [of p c cs] split: prod.splits)
    qed
  qed
qed

lemma substitute_tokens_simps [simp]:
  "substitute_tokens s c M [] = []"
  "substitute_tokens s c M (Chr x # ts) = x # substitute_tokens s c M ts"
  "substitute_tokens s c M (Match g0 u # ts) = fill_in s c M g0 u @ substitute_tokens s c M ts"
  by (simp_all add: substitute_tokens_def split: prod.splits)

lemma dict_set_absent: "map_of M k = None \<Longrightarrow> dict_set k v M = M @ [(k, v)]"
  by (induction M) (auto split: if_splits)

lemma fill_in_mono:
  "map_of M1 \<subseteq>\<^sub>m map_of M \<Longrightarrow> (is_valid_uuid u \<Longrightarrow> u \<in> dom (map_of M1)) \<Longrightarrow>
   fill_in s c M1 g0 u = fill_in s c M g0 u"
  by (auto simp: fill_in_def map_le_def dom_def split: option.splits)

lemma replace_match_step:
  assumes "replace_match R g0 u = (r, R1)"
  shows "same_config R R1"
    and "\<exists>extra. uuid_mapping R1 = uuid_mapping R @ extra"
    and "map_of (uuid_mapping R) \<subseteq>\<^sub>m map_of (uuid_mapping R1)"
    and "is_valid_uuid u \<Longrightarrow> u \<in> dom (map_of (uuid_mapping R1))"
    and "r = fill_in (sep R) (close_sep R) (uuid_mapping R1) g0 u"
proof -
  show "same_config R R1"
    using assms
    by (auto simp: replace_match_def same_config_def generate_replacement_def
        split: if_splits option.splits)
  show "\<exists>extra. uuid_mapping R1 = uuid_mapping R @ extra"
    using assms
    by (auto simp: replace_match_def generate_replacement_def dict_set_absent
        split: if_splits option.splits)
  show "map_of (uuid_mapping R) \<subseteq>\<^sub>m map_of (uuid_mapping R1)"
    using assms
    by (auto simp: replace_match_def generate_replacement_def dict_set_absent map_le_def dom_def
        map_add_def split: if_splits option.splits)
  show "is_valid_uuid u \<Longrightarrow> u \<in> dom (map_of (uuid_mapping R1))"
    using assms
    by (auto simp: replace_match_def generate_replacement_def dict_set_absent map_add_def
        split: if_splits option.splits)
  show "r = fill_in (sep R) (close_sep R) (uuid_mapping R1) g0 u"
    using assms
    by (auto simp: replace_match_def generate_replacement_def dict_set_absent fill_in_def
        map_add_def split: if_splits option.splits)
qed

lemma replace_match_known:
  "(is_valid_uuid u \<Longrightarrow> u \<in> dom (map_of (uuid_mapping R))) \<Longrightarrow>
   replace_match R g0 u = (fill_in (sep R) (close_sep R) (uuid_mapping R) g0 u, R)"
  by (auto simp: replace_match_def fill_in_def split: option.splits)

lemma replace_match_numbered:
  assumes "numbered R" and "replace_match R g0 u = (r, R1)"
  shows "numbered R1"
    and "uuid_mapping R1 = uuid_mapping R @
           (if is_valid_uuid u \<and> u \<notin> set (map fst (uuid_mapping R))
            then [(u, placeholder (nr_digits R) (length (uuid_mapping R)))] else [])"
proof -
  have key: "map_of (uuid_mapping R) u = None \<longleftrightarrow> u \<notin> set (map fst (uuid_mapping R))"
    by (simp add: map_of_eq_None_iff)
  have ph: "zfill (py_str (counter R)) (nr_digits R) = placeholder (nr_digits R) (length (uuid_mapping R))"
    using assms(1) by (simp add: numbered_def placeholder_def)
  show m: "uuid_mapping R1 = uuid_mapping R @
           (if is_valid_uuid u \<and> u \<notin> set (map fst (uuid_mapping R))
            then [(u, placeholder (nr_digits R) (length (uuid_mapping R)))] else [])"
  proof (cases "is_valid_uuid u \<and> map_of (uuid_mapping R) u = None")
    case True
    then show ?thesis
      using assms(2) key ph
      by (auto simp: replace_match_def generate_replacement_def dict_set_absent)
  next
    case False
    then show ?thesis
      using assms(2) key
      by (auto simp: replace_match_def split: option.splits if_splits)
  qed
  have cfg: "nr_digits R1 = nr_digits R"
    using replace_match_step(1) [OF assms(2)] by (simp add: same_config_def)
  have cnt: "counter R1 = counter R +
      (if is_valid_uuid u \<and> u \<notin> set (map fst (uuid_mapping R)) then 1 else 0)"
    using assms(2) key
    by (auto simp: replace_match_def generate_replacement_def split: option.splits if_splits)
  show "numbered R1"
    using assms(1) cnt cfg unfolding numbered_def m
    by auto
qed

lemma same_config_refl [simp]: "same_config R R"
  by (simp add: same_config_def)

lemma same_config_trans: "same_config R R1 \<Longrightarrow> same_config R1 R2 \<Longrightarrow> same_config R R2"
  by (simp add: same_config_def)

lemma emit_replace_grows:
  "emit replace_match R ts = (out, R') \<Longrightarrow>
   same_config R R'
   \<and> (\<exists>extra. uuid_mapping R' = uuid_mapping R @ extra)
   \<and> map_of (uuid_mapping R) \<subseteq>\<^sub>m map_of (uuid_mapping R')
   \<and> set (identifiers ts) \<subseteq> dom (map_of (uuid_mapping R'))"
proof (induction ts arbitrary: R out R')
  case Nil
  then show ?case by simp
next
  case (Cons t ts)
  show ?case
  proof (cases t)
    case (Chr c)
    with Cons.prems obtain out1 where "emit replace_match R ts = (out1, R')"
      by (auto split: prod.splits)
    from Cons.IH [OF this] Chr show ?thesis by simp
  next
    case (Match g0 u)
    with Cons.prems obtain r R1 out1 where
      st: "replace_match R g0 u = (r, R1)" and rest: "emit replace_match R1 ts = (out1, R')"
      by (auto split: prod.splits)
    note ih = Cons.IH [OF rest]
    note s = replace_match_step [OF st]
    have a: "same_config R R'" using s(1) ih same_config_trans by blast
    have b: "\<exists>extra. uuid_mapping R' = uuid_mapping R @ extra"
      using s(2) ih by auto
    have c: "map_of (uuid_mapping R) \<subseteq>\<^sub>m map_of (uuid_mapping R')"
      using s(3) ih map_le_trans by blast
    have "is_valid_uuid u \<Longrightarrow> u \<in> dom (map_of (uuid_mapping R'))"
      using s(4) ih map_le_implies_dom_le by blast
    then have d: "set (identifiers (t # ts)) \<subseteq> dom (map_of (uuid_mapping R'))"
      using ih Match by auto
    from a b c d show ?thesis by blast
  qed
qed

lemma emit_replace_output:
  "emit replace_match R ts = (out, R') \<Longrightarrow> map_of (uuid_mapping R') \<subseteq>\<^sub>m map_of M \<Longrightarrow>
   out = substitute_tokens (sep R) (close_sep R) M ts"
proof (induction ts arbitrary: R out R')
  case Nil
  then show ?case by simp
next
  case (Cons t ts)
  show ?case
  proof (cases t)
    case (Chr c)
    with Cons.prems obtain out1 where e: "emit replace_match R ts = (out1, R')" and o: "out = c # out1"
      by (auto split: prod.splits)
    from Cons.IH [OF e Cons.prems(2)] Chr o show ?thesis by simp
  next
    case (Match g0 u)
    with Cons.prems obtain r R1 out1 where
      st: "replace_match R g0 u = (r, R1)" and rest: "emit replace_match R1 ts = (out1, R')"
      and o: "out = r @ out1"
      by (auto split: prod.splits)
    note s = replace_match_step [OF st]
    note g = emit_replace_grows [OF rest]
    have cfg: "sep R1 = sep R" "close_sep R1 = close_sep R"
      using s(1) by (simp_all add: same_config_def)
    have "map_of (uuid_mapping R1) \<subseteq>\<^sub>m map_of M"
      using g Cons.prems(2) map_le_trans by blast
    then have "r = fill_in (sep R) (close_sep R) M g0 u"
      using s(5) s(4) fill_in_mono by simp
    moreover have "out1 = substitute_tokens (sep R) (close_sep R) M ts"
      using Cons.IH [OF rest Cons.prems(2)] cfg by simp
    ultimately show ?thesis using o Match by simp
  qed
qed

lemma emit_replace_known:
  "set (identifiers ts) \<subseteq> dom (map_of (uuid_mapping R)) \<Longrightarrow>
   emit replace_match R ts = (substitute_tokens (sep R) (close_sep R) (uuid_mapping R) ts, R)"
proof (induction ts)
  case Nil
  then show ?case by simp
next
  case (Cons t ts)
  show ?case
  proof (cases t)
    case (Chr c)
    with Cons show ?thesis by simp
  next
    case (Match g0 u)
    with Cons.prems have k: "is_valid_uuid u \<Longrightarrow> u \<in> dom (map_of (uuid_mapping R))"
      and r: "set (identifiers ts) \<subseteq> dom (map_of (uuid_mapping R))"
      by (auto split: if_splits)
    show ?thesis
      using Match Cons.IH [OF r] replace_match_known [of u R g0, OF k]
      by simp
  qed
qed

lemma replace_uuids_emit:
  "replace_uuids R text =
     (case emit replace_match R (tokens (pattern R) text) of
        (out, R1) \<Rightarrow> ((out, uuid_mapping R1), R1))"
  by (simp add: replace_uuids_def re_sub_tokens)

text \<open>
  C3. From any replacer state, a second \<open>replace_uuids\<close> on the same text right after
  the first returns the same text and the same mapping, and leaves the instance
  (mapping and counter included) as the first call left it.
\<close>

theorem replace_uuids_twice:
  "replace_uuids (snd (replace_uuids R T)) T = (fst (replace_uuids R T), snd (replace_uuids R T))"
proof -
  obtain out R1 where e: "emit replace_match R (tokens (pattern R) T) = (out, R1)"
    by (cases "emit replace_match R (tokens (pattern R) T)")
  note g = emit_replace_grows [OF e]
  have cfg: "pattern R1 = pattern R" "sep R1 = sep R" "close_sep R1 = close_sep R"
    using g by (simp_all add: same_config_def)
  have o: "out = substitute_tokens (sep R) (close_sep R) (uuid_mapping R1) (tokens (pattern R) T)"
    using emit_replace_output [OF e] by simp
  have "emit replace_match R1 (tokens (pattern R) T) = (out, R1)"
    using emit_replace_known [of "tokens (pattern R) T" R1] g o cfg by simp
  then show ?thesis
    using e by (simp add: replace_uuids_emit cfg)
qed

lemma first_seen_distinct: "distinct xs \<Longrightarrow> first_seen xs = xs"
  by (simp add: first_seen_def distinct_remdups_id)

lemma remdups_skip: "x \<in> set B \<Longrightarrow> remdups (A @ x # B) = remdups (A @ B)"
  by (induction A) auto

lemma remdups_append_remdups: "remdups (A @ remdups B) = remdups (A @ B)"
  by (induction A) auto

lemma first_seen_idem: "first_seen (first_seen xs @ ys) = first_seen (xs @ ys)"
  by (simp add: first_seen_def remdups_append_remdups)

lemma first_seen_repeat: "x \<in> set xs \<Longrightarrow> first_seen (xs @ x # ys) = first_seen (xs @ ys)"
  by (simp add: first_seen_def remdups_skip)

lemma distinct_first_seen [simp]: "distinct (first_seen xs)"
  by (simp add: first_seen_def)

lemma set_first_seen [simp]: "set (first_seen xs) = set xs"
  by (simp add: first_seen_def)

lemma emit_replace_numbered:
  "numbered R \<Longrightarrow> emit replace_match R ts = (out, R') \<Longrightarrow>
   numbered R'
   \<and> map fst (uuid_mapping R') = first_seen (map fst (uuid_mapping R) @ identifiers ts)"
proof (induction ts arbitrary: R out R')
  case Nil
  then show ?case by (simp add: first_seen_distinct numbered_def)
next
  case (Cons t ts)
  show ?case
  proof (cases t)
    case (Chr c)
    with Cons.prems obtain out1 where "emit replace_match R ts = (out1, R')"
      by (auto split: prod.splits)
    from Cons.IH [OF Cons.prems(1) this] Chr show ?thesis by simp
  next
    case (Match g0 u)
    with Cons.prems obtain r R1 out1 where
      st: "replace_match R g0 u = (r, R1)" and rest: "emit replace_match R1 ts = (out1, R')"
      by (auto split: prod.splits)
    note n1 = replace_match_numbered [OF Cons.prems(1) st]
    note ih = Cons.IH [OF n1(1) rest]
    let ?ks = "map fst (uuid_mapping R)"
    have "first_seen (map fst (uuid_mapping R1) @ identifiers ts) = first_seen (?ks @ identifiers (t # ts))"
    proof (cases "is_valid_uuid u")
      case False
      then show ?thesis using n1(2) Match by simp
    next
      case v: True
      show ?thesis
      proof (cases "u \<in> set ?ks")
        case True
        then show ?thesis using n1(2) Match v first_seen_repeat [of u ?ks "identifiers ts"] by simp
      next
        case False
        then show ?thesis using n1(2) Match v by simp
      qed
    qed
    with ih show ?thesis by simp
  qed
qed

lemma numbered_expected:
  assumes "numbered R" and "map fst (uuid_mapping R) = first_seen ids"
  shows "uuid_mapping R = expected_mapping (nr_digits R) ids"
proof -
  have "uuid_mapping R = zip (map fst (uuid_mapping R)) (map snd (uuid_mapping R))"
    by (simp add: zip_map_fst_snd)
  also have "\<dots> = zip (first_seen ids) (map (placeholder (nr_digits R)) [0..<length (uuid_mapping R)])"
    using assms by (simp add: numbered_def)
  also have "length (uuid_mapping R) = length (first_seen ids)"
    using assms(2) by (metis length_map)
  finally show ?thesis by (simp add: expected_mapping_def)
qed

lemma expected_mapping_keys: "map fst (expected_mapping w ids) = first_seen ids"
  by (simp add: expected_mapping_def)

lemma expected_mapping_values:
  "map snd (expected_mapping w ids) = map (placeholder w) [0..<length (first_seen ids)]"
  by (simp add: expected_mapping_def)

lemma distinct_placeholders: "distinct (map (placeholder w) [0..<k])"
  by (simp add: distinct_map inj_on_def) (metis placeholder_inj)

lemma numbered_init: "numbered (UUIDReplacer_init s n)"
  by (simp add: numbered_def UUIDReplacer_init_def)

lemma replace_calls_numbered:
  "numbered R \<Longrightarrow> map fst (uuid_mapping R) = first_seen prev \<Longrightarrow>
   replace_calls R texts = (results, R') \<Longrightarrow>
   numbered R' \<and> same_config R R'
   \<and> (\<exists>extra. uuid_mapping R' = uuid_mapping R @ extra)
   \<and> map fst (uuid_mapping R') =
       first_seen (prev @ concat (map (\<lambda>t. identifiers (tokens (pattern R) t)) texts))
   \<and> map snd results =
       map (expected_mapping (nr_digits R))
         (running prev (map (\<lambda>t. identifiers (tokens (pattern R) t)) texts))
   \<and> map fst results = map (substitute R (uuid_mapping R')) texts"
proof (induction texts arbitrary: R prev results R')
  case Nil
  then show ?case by (auto simp: first_seen_def)
next
  case (Cons t texts)
  let ?ids = "\<lambda>t. identifiers (tokens (pattern R) t)"
  obtain out R1 where e: "emit replace_match R (tokens (pattern R) t) = (out, R1)"
    by (cases "emit replace_match R (tokens (pattern R) t)")
  then have ru: "replace_uuids R t = ((out, uuid_mapping R1), R1)"
    by (simp add: replace_uuids_emit)
  obtain rs where rc: "replace_calls R1 texts = (rs, R')" and res: "results = (out, uuid_mapping R1) # rs"
    using Cons.prems(3) ru by (auto split: prod.splits)
  note g = emit_replace_grows [OF e]
  note n = emit_replace_numbered [OF Cons.prems(1) e]
  have cfg: "pattern R1 = pattern R" "nr_digits R1 = nr_digits R" "sep R1 = sep R"
    "close_sep R1 = close_sep R"
    using g by (simp_all add: same_config_def)
  have k1: "map fst (uuid_mapping R1) = first_seen (prev @ ?ids t)"
  proof -
    have "first_seen (first_seen prev @ ?ids t) = first_seen (prev @ ?ids t)"
      by (rule first_seen_idem)
    then show ?thesis using n Cons.prems(2) by simp
  qed
  note ih = Cons.IH [OF conjunct1 [OF n] k1 rc]
  have m1: "uuid_mapping R1 = expected_mapping (nr_digits R) (prev @ ?ids t)"
    using numbered_expected [OF conjunct1 [OF n] k1] cfg by simp
  have le: "map_of (uuid_mapping R1) \<subseteq>\<^sub>m map_of (uuid_mapping R')"
  proof -
    from ih obtain extra where x: "uuid_mapping R' = uuid_mapping R1 @ extra" by blast
    have "numbered R'" using ih by blast
    then have "distinct (map fst (uuid_mapping R1 @ extra))"
      using x by (simp add: numbered_def)
    then show ?thesis
      unfolding x
      by (auto simp: map_le_def map_add_def dom_def split: option.splits
          dest!: map_of_SomeD)
  qed
  have o: "out = substitute R (uuid_mapping R') t"
    using emit_replace_output [OF e le] by (simp add: substitute_def)
  have sub: "substitute R1 = substitute R"
    by (rule ext)+ (simp add: substitute_def cfg)
  show ?case
    using ih g same_config_trans [of R R1 R'] m1 o
    by (auto simp: res cfg sub)
qed

text \<open>
  C2. After any sequence of \<open>replace_uuids\<close> calls on a fresh replacer: the keys of the
  mapping are the identifiers met, in first-seen order and without repetition; the
  \<open>i\<close>-th placeholder is \<open>str(i).zfill(nr_digits)\<close>; keys are pairwise distinct and so are
  placeholders; the counter is the number of entries. The mapping returned by each call
  is the one for the identifiers met so far, and the text returned by each call is its
  input with every identifier replaced by the placeholder the final mapping gives it:
  an identifier met again gets the placeholder it already has, and no new entry.
\<close>

theorem replace_calls_first_seen_numbering:
  "(case replace_calls (UUIDReplacer_init s n) texts of
      (results, R) \<Rightarrow>
        (let ids = map (\<lambda>t. identifiers (tokens (pattern (UUIDReplacer_init s n)) t)) texts
         in map fst (uuid_mapping R) = first_seen (concat ids)
            \<and> map snd (uuid_mapping R) =
                map (\<lambda>i. zfill (py_str (int i)) n) [0..<length (uuid_mapping R)]
            \<and> distinct (map fst (uuid_mapping R))
            \<and> distinct (map snd (uuid_mapping R))
            \<and> counter R = int (length (uuid_mapping R))
            \<and> uuid_mapping R = expected_mapping n (concat ids)
            \<and> map snd results = map (expected_mapping n) (running [] ids)
            \<and> map fst results = map (substitute (UUIDReplacer_init s n) (uuid_mapping R)) texts))"
proof -
  let ?R0 = "UUIDReplacer_init s n"
  let ?ids = "map (\<lambda>t. identifiers (tokens (pattern ?R0) t)) texts"
  obtain results R where rc: "replace_calls ?R0 texts = (results, R)"
    by (cases "replace_calls ?R0 texts")
  have k0: "map fst (uuid_mapping ?R0) = first_seen []"
    by (simp add: UUIDReplacer_init_def first_seen_def)
  have n0: "nr_digits ?R0 = n" by (simp add: UUIDReplacer_init_def)
  note f = replace_calls_numbered [OF numbered_init k0 rc]
  have num: "numbered R" and cfg: "nr_digits R = n"
    using f n0 by (simp_all add: same_config_def)
  have keys: "map fst (uuid_mapping R) = first_seen (concat ?ids)" using f by simp
  have vals: "map snd (uuid_mapping R) = map (placeholder n) [0..<length (uuid_mapping R)]"
    using num cfg by (simp add: numbered_def)
  have ph: "placeholder n = (\<lambda>i. zfill (py_str (int i)) n)"
    by (rule ext) (simp add: placeholder_def)
  have d2: "distinct (map snd (uuid_mapping R))"
    unfolding vals by (rule distinct_placeholders)
  have ex: "uuid_mapping R = expected_mapping n (concat ?ids)"
    using numbered_expected [OF num keys] cfg by simp
  have snaps: "map snd results = map (expected_mapping n) (running [] ?ids)"
    using f n0 by simp
  have outs: "map fst results = map (substitute ?R0 (uuid_mapping R)) texts"
    using f by simp
  show ?thesis
    unfolding rc Let_def prod.case
    using keys vals d2 num ex snaps outs
    by (simp add: numbered_def ph)
qed

theorem replace_calls_first_seen_numbering_witness:
  "replace_calls (UUIDReplacer_init ''['' 2)
     [''a [550e8400-e29b-41d4-a716-446655440000] b [6ba7b810-9dad-11d1-80b4-00c04fd430c8]'',
      ''[6ba7b810-9dad-11d1-80b4-00c04fd430c8][123e4567-e89b-12d3-a456-426614174000]'']
   = ([(''a [00] b [01]'',
          [(''550e8400-e29b-41d4-a716-446655440000'', ''00''),
           (''6ba7b810-9dad-11d1-80b4-00c04fd430c8'', ''01'')]),
       (''[01][02]'',
          [(''550e8400-e29b-41d4-a716-446655440000'', ''00''),
           (''6ba7b810-9dad-11d1-80b4-00c04fd430c8'', ''01''),
           (''123e4567-e89b-12d3-a456-426614174000'', ''02'')])],
      (UUIDReplacer_init ''['' 2)
        \<lparr>uuid_mapping :=
           [(''550e8400-e29b-41d4-a716-446655440000'', ''00''),
            (''6ba7b810-9dad-11d1-80b4-00c04fd430c8'', ''01''),
            (''123e4567-e89b-12d3-a456-426614174000'', ''02'')],
         counter := 3\<rparr>)
   \<and> [''550e8400-e29b-41d4-a716-446655440000'', ''6ba7b810-9dad-11d1-80b4-00c04fd430c8'',
       ''123e4567-e89b-12d3-a456-426614174000'']
     = first_seen (concat (map (\<lambda>t. identifiers (tokens (pattern (UUIDReplacer_init ''['' 2)) t))
         [''a [550e8400-e29b-41d4-a716-446655440000] b [6ba7b810-9dad-11d1-80b4-00c04fd430c8]'',
          ''[6ba7b810-9dad-11d1-80b4-00c04fd430c8][123e4567-e89b-12d3-a456-426614174000]'']))"
proof (rule conjI)
  let ?texts = "[''a [550e8400-e29b-41d4-a716-446655440000] b [6ba7b810-9dad-11d1-80b4-00c04fd430c8]'',
      ''[6ba7b810-9dad-11d1-80b4-00c04fd430c8][123e4567-e89b-12d3-a456-426614174000]'']"
  let ?M = "[(''550e8400-e29b-41d4-a716-446655440000'', ''00''),
            (''6ba7b810-9dad-11d1-80b4-00c04fd430c8'', ''01''),
            (''123e4567-e89b-12d3-a456-426614174000'', ''02'')]"
  let ?R = "(UUIDReplacer_init ''['' 2)\<lparr>uuid_mapping := ?M, counter := 3\<rparr>"
  show run: "replace_calls (UUIDReplacer_init ''['' 2) ?texts
   = ([(''a [00] b [01]'',
          [(''550e8400-e29b-41d4-a716-446655440000'', ''00''),
           (''6ba7b810-9dad-11d1-80b4-00c04fd430c8'', ''01'')]),
       (''[01][02]'', ?M)], ?R)"
    by code_simp
  have "map fst (uuid_mapping ?R) =
      first_seen (concat (map (\<lambda>t. identifiers (tokens (pattern (UUIDReplacer_init ''['' 2)) t)) ?texts))"
    using replace_calls_first_seen_numbering [of "''[''" 2 ?texts]
    unfolding run Let_def prod.case by blast
  moreover have "map fst (uuid_mapping ?R) =
     [''550e8400-e29b-41d4-a716-446655440000'', ''6ba7b810-9dad-11d1-80b4-00c04fd430c8'',
       ''123e4567-e89b-12d3-a456-426614174000'']"
    by simp
  ultimately show "[''550e8400-e29b-41d4-a716-446655440000'', ''6ba7b810-9dad-11d1-80b4-00c04fd430c8'',
       ''123e4567-e89b-12d3-a456-426614174000'']
     = first_seen (concat (map (\<lambda>t. identifiers (tokens (pattern (UUIDReplacer_init ''['' 2)) t)) ?texts))"
    by (metis (no_types))
qed

section \<open>Tokens of a text built from spans\<close>

lemma tokens_Nil: "0 < re_len p \<Longrightarrow> tokens p [] = []"
proof -
  assume "0 < re_len p"
  then have "\<not> re_match p []"
    using match_here_length [of "re_atoms p" "[]"] by (auto simp: re_match_def re_len_def)
  then show ?thesis by (simp add: tokens.simps)
qed

lemma tokens_char: "\<not> re_match p (x # xs) \<Longrightarrow> tokens p (x # xs) = Chr x # tokens p xs"
  by (simp add: tokens.simps)

lemma tokens_span:
  assumes "length u = length g" and "match_here g u" and "0 < length s + length g + length c"
  shows "tokens (lit_regex s g c) (s @ u @ c @ rest) = Match (s @ u @ c) u # tokens (lit_regex s g c) rest"
proof -
  let ?p = "lit_regex s g c"
  have m: "re_match ?p (s @ u @ c @ rest)"
    using assms(1,2) by (auto simp: re_match_lit)
  have ne: "s @ u @ c @ rest \<noteq> []" using assms(1,3) by auto
  then obtain x xs where t: "s @ u @ c @ rest = x # xs" by (cases "s @ u @ c @ rest") auto
  have rl: "re_len ?p \<noteq> 0" using assms(3) by simp
  have "tokens ?p (x # xs) = Match (group0 ?p (x # xs)) (group1 ?p (x # xs)) # tokens ?p (drop (re_len ?p) (x # xs))"
    using m rl unfolding t by (simp only: tokens.simps(2) [of ?p x xs] if_True if_False)
  then show ?thesis
    unfolding t [symmetric] using groups_lit [OF assms(1), of s c rest] by simp
qed

section \<open>Upper and lower case\<close>

lemma is_hex_lower: "is_hex c \<Longrightarrow> is_hex (lower_hex c)"
  by (auto simp: is_hex_def lower_hex_def)

lemma is_hex_upper: "is_hex c \<Longrightarrow> is_hex (upper_hex c)"
  by (auto simp: is_hex_def upper_hex_def)

lemma uuid_shape_map:
  assumes "uuid_shape u" and "\<And>c. is_hex c \<Longrightarrow> is_hex (f c)" and "f CHR ''-'' = CHR ''-''"
  shows "uuid_shape (map f u)"
  using assms
  by (auto simp: uuid_shape_def take_map drop_map list_all_iff)

lemma clean_prompt_two_spans:
  assumes "uuid_shape a" and "uuid_shape b" and "a \<noteq> b"
  shows "clean_prompt (s @ a @ closing s @ s @ b @ closing s) s n =
           (s @ zfill (py_str 0) n @ closing s @ s @ zfill (py_str 1) n @ closing s,
            [(a, zfill (py_str 0) n), (b, zfill (py_str 1) n)])"
proof -
  let ?p = "lit_regex s uuid_pattern (closing s)"
  let ?R0 = "UUIDReplacer_init s n"
  have l: "length uuid_pattern = 36" by (simp add: uuid_pattern_def)
  have ma: "length a = length uuid_pattern" "match_here uuid_pattern a"
    and mb: "length b = length uuid_pattern" "match_here uuid_pattern b"
    using assms(1,2) l by (simp_all add: uuid_shape_match)
  have pos: "0 < length s + length uuid_pattern + length (closing s)" using l by simp
  have "tokens ?p (s @ b @ closing s) = Match (s @ b @ closing s) b # tokens ?p []"
    using tokens_span [OF mb pos, of "[]"] by simp
  then have "tokens ?p (s @ a @ closing s @ s @ b @ closing s) =
          Match (s @ a @ closing s) a # Match (s @ b @ closing s) b # tokens ?p []"
    using tokens_span [OF ma pos, of "s @ b @ closing s"] by simp
  then have tk: "tokens ?p (s @ a @ closing s @ s @ b @ closing s) =
          [Match (s @ a @ closing s) a, Match (s @ b @ closing s) b]"
    using tokens_Nil [of ?p] l by simp
  have va: "is_valid_uuid a" and vb: "is_valid_uuid b"
    using assms(1,2) by (simp_all add: uuid_shape_valid)
  show ?thesis
    unfolding clean_prompt_def replace_uuids_emit init_pattern tk
    using va vb assms(3)
    by (simp add: replace_match_def generate_replacement_def UUIDReplacer_init_def)
qed

section \<open>Restoration\<close>

lemma map_of_dict_set: "map_of (dict_set k v al) = (map_of al)(k \<mapsto> v)"
  by (induction al) (auto simp: fun_eq_iff)

lemma reverse_fold_key_of:
  "map_of (foldl (\<lambda>acc (k, v). dict_set v k acc) acc M) d =
     (case key_of M d of Some k \<Rightarrow> Some k | None \<Rightarrow> map_of acc d)"
proof (induction M arbitrary: acc)
  case Nil
  then show ?case by simp
next
  case (Cons kv M)
  obtain k v where kv: "kv = (k, v)" by (cases kv)
  show ?case
    unfolding kv using Cons.IH [of "dict_set v k acc"]
    by (auto simp: map_of_dict_set split: option.splits)
qed

lemma map_of_reverse_mapping: "map_of (reverse_mapping M) d = key_of M d"
  by (simp add: reverse_mapping_def reverse_fold_key_of split: option.splits)

lemma key_of_None: "key_of M d = None \<longleftrightarrow> d \<notin> snd ` set M"
  by (induction M d rule: key_of.induct) (auto split: option.splits)

lemma key_of_Some: "key_of M d = Some k \<Longrightarrow> (k, d) \<in> set M"
  by (induction M d rule: key_of.induct) (auto split: option.splits if_splits)

lemma key_of_unique:
  "distinct (map snd M) \<Longrightarrow> (k, d) \<in> set M \<Longrightarrow> key_of M d = Some k"
proof -
  assume dist: "distinct (map snd M)" and mem: "(k, d) \<in> set M"
  then have "d \<in> snd ` set M" by force
  then obtain k' where k': "key_of M d = Some k'"
    using key_of_None [of M d] by (cases "key_of M d") auto
  then have "(k', d) \<in> set M" by (rule key_of_Some)
  with mem dist have "k' = k"
    by (metis (no_types, lifting) distinct_map eq_key_imp_eq_value inj_on_def prod.collapse
        prod.inject snd_conv)
  with k' show ?thesis by simp
qed

lemma digit_pattern_ok:
  "0 \<le> n \<Longrightarrow> n < MAXREPEAT \<Longrightarrow>
   digit_pattern s c n = Inr (lit_regex s (replicate (nat n) Digit) c)"
  by (simp add: digit_pattern_def lit_regex_def)



lemma span_here_match:
  "0 \<le> n \<Longrightarrow> span_here s n t \<longleftrightarrow> re_match (lit_regex s (replicate (nat n) Digit) (closing s)) t"
proof -
  have d: "atom_ok Digit = is_digit" by (rule ext) simp
  show ?thesis
    by (auto simp: span_here_def Let_def re_match_def re_atoms_def lit_regex_def match_here_append
        match_here_lits match_here_replicate d add.commute)
qed

lemma closing_Nil: "closing s = [] \<longleftrightarrow> s = []"
  by (auto simp: closing_def split: option.splits if_splits)

lemma tokens_render:
  assumes "0 \<le> n" and "s \<noteq> [] \<or> 0 < n" and "scan_cut s n ps"
  shows "tokens (lit_regex s (replicate (nat n) Digit) (closing s)) (render s ps) =
           map (\<lambda>pc. case pc of Copy x \<Rightarrow> Chr x | Span d \<Rightarrow> Match (s @ d @ closing s) d) ps"
  using assms(3)
proof (induction ps)
  case Nil
  have "0 < re_len (lit_regex s (replicate (nat n) Digit) (closing s))"
    using assms(1,2) by auto
  then show ?case by (simp add: render_def tokens_Nil)
next
  case (Cons pc ps)
  let ?p = "lit_regex s (replicate (nat n) Digit) (closing s)"
  show ?case
  proof (cases pc)
    case (Copy x)
    with Cons.prems have nm: "\<not> re_match ?p (x # render s ps)" and r: "scan_cut s n ps"
      using span_here_match [OF assms(1)] by simp_all
    have "render s (pc # ps) = x # render s ps" using Copy by (simp add: render_def)
    then show ?thesis using tokens_char [OF nm] Cons.IH [OF r] Copy by simp
  next
    case (Span d)
    with Cons.prems have l: "int (length d) = n" and dg: "list_all is_digit d" and r: "scan_cut s n ps"
      by simp_all
    have m1: "length d = length (replicate (nat n) Digit)" using l by auto
    have m2: "match_here (replicate (nat n) Digit) d"
      using l dg by (auto simp: match_here_replicate list_all_iff)
    have pos: "0 < length s + length (replicate (nat n) Digit) + length (closing s)"
      using assms(1,2) by auto
    have "render s (pc # ps) = s @ d @ closing s @ render s ps"
      using Span by (simp add: render_def)
    then show ?thesis
      using tokens_span [OF m1 m2 pos, of "render s ps"] Cons.IH [OF r] Span by simp
  qed
qed

lemma emit_restore_pieces:
  "fst (emit (\<lambda>st g0 g1. (restore_match s (closing s) (reverse_mapping M) g0 g1, st)) ()
        (map (\<lambda>pc. case pc of Copy x \<Rightarrow> Chr x | Span d \<Rightarrow> Match (s @ d @ closing s) d) ps))
   = concat (map (restore_piece s M) ps)"
proof (induction ps)
  case Nil
  then show ?case by simp
next
  case (Cons pc ps)
  then show ?case
    by (cases pc)
      (auto simp: restore_match_def map_of_reverse_mapping split: prod.splits option.splits)
qed

lemma restore_output_pieces:
  assumes "0 \<le> n" and "n < MAXREPEAT" and "s \<noteq> [] \<or> 0 < n" and "scan_cut s n ps"
  shows "restore_output (render s ps) M s n = Inr (concat (map (restore_piece s M) ps))"
  using tokens_render [OF assms(1,3,4)] emit_restore_pieces [of s M ps]
  by (simp add: restore_output_def Let_def digit_pattern_ok [OF assms(1,2)] re_sub_tokens)



lemma render_append: "render s (ps @ qs) = render s ps @ render s qs"
  by (simp add: render_def)






lemma clean_prompt_numbered:
  assumes "clean_prompt T s n = (C, M)"
  shows "distinct (map fst M)" and "map snd M = map (placeholder n) [0..<length M]"
    and "distinct (map snd M)"
proof -
  obtain out R where e: "emit replace_match (UUIDReplacer_init s n)
      (tokens (pattern (UUIDReplacer_init s n)) T) = (out, R)"
    by (cases "emit replace_match (UUIDReplacer_init s n) (tokens (pattern (UUIDReplacer_init s n)) T)")
  then have M: "M = uuid_mapping R"
    using assms by (simp add: clean_prompt_def replace_uuids_emit)
  have num: "numbered R" using emit_replace_numbered [OF numbered_init e] by blast
  have "nr_digits R = n"
    using emit_replace_grows [OF e] by (simp add: same_config_def UUIDReplacer_init_def)
  with num show "distinct (map fst M)" and v: "map snd M = map (placeholder n) [0..<length M]"
    by (simp_all add: numbered_def M)
  show "distinct (map snd M)" unfolding v by (rule distinct_placeholders)
qed

lemma placeholder_width:
  assumes "0 < w" and "i < 10 ^ nat w"
  shows "int (length (placeholder w i)) = w"
proof -
  have "length (digits_of i) \<le> nat w"
    using length_digits_of_le [of "nat w" i] assms by simp
  then show ?thesis using assms(1) by (simp add: placeholder_eq)
qed

lemma placeholder_digits: "list_all is_digit (placeholder w i)"
proof -
  have "is_digit CHR ''0''" by (simp add: is_digit_def)
  then show ?thesis
    using digits_of_all_digits [of i] by (auto simp: placeholder_eq list_all_iff)
qed

lemma placeholder_digit: "x \<in> set (placeholder w i) \<Longrightarrow> is_digit x"
  using placeholder_digits [of w i] by (simp add: list_all_iff)

text \<open>
  C1 (as the code has it). Let \<open>(C, M) = clean_prompt T\<close> with \<open>1 \<le> nr_digits < MAXREPEAT\<close>,
  and let a text be cut into copied characters and spans of exactly \<open>nr_digits\<close> digits
  that are values of \<open>M\<close>, no span starting at a copied character. Then
  \<open>restore_output\<close> returns the text with every span replaced by \<open>sep\<close> + the identifier
  that \<open>M\<close> maps to its digits + \<open>close_sep\<close>, and every copied character unchanged; that
  identifier is unique. While \<open>M\<close> has at most \<open>10 ^ nr_digits\<close> entries, all its
  placeholders have exactly \<open>nr_digits\<close> digits.
\<close>

theorem restore_after_clean_prompt:
  assumes "0 < n" and "n < MAXREPEAT" and "clean_prompt T s n = (C, M)"
    and "scan_cut s n ps"
    and "list_all (\<lambda>pc. case pc of Copy x \<Rightarrow> True | Span d \<Rightarrow> d \<in> snd ` set M) ps"
  shows "restore_output (render s ps) M s n = Inr (concat (map (restore_piece s M) ps))
         \<and> list_all (\<lambda>pc. case pc of Copy x \<Rightarrow> True | Span d \<Rightarrow> key_of M d \<noteq> None) ps
         \<and> list_all (\<lambda>(u, d). key_of M d = Some u) M
         \<and> (length M \<le> 10 ^ nat n \<longrightarrow>
              list_all (\<lambda>(u, d). int (length d) = n \<and> list_all is_digit d) M)"
proof -
  have n0: "0 \<le> n" and pos: "s \<noteq> [] \<or> 0 < n" using assms(1) by simp_all
  have d: "length M \<le> 10 ^ nat n \<longrightarrow>
              list_all (\<lambda>(u, d). int (length d) = n \<and> list_all is_digit d) M"
  proof
    assume le: "length M \<le> 10 ^ nat n"
    have "list_all (\<lambda>d. int (length d) = n \<and> list_all is_digit d) (map snd M)"
      unfolding clean_prompt_numbered(2) [OF assms(3)]
      using le assms(1) by (auto simp: list_all_iff placeholder_width placeholder_digit)
    then show "list_all (\<lambda>(u, d). int (length d) = n \<and> list_all is_digit d) M"
      by (auto simp: list_all_iff)
  qed
  have a: "restore_output (render s ps) M s n = Inr (concat (map (restore_piece s M) ps))"
    using restore_output_pieces [OF n0 assms(2) pos assms(4)] .
  have b: "list_all (\<lambda>pc. case pc of Copy x \<Rightarrow> True | Span d \<Rightarrow> key_of M d \<noteq> None) ps"
    using assms(5) by (auto simp: list_all_iff key_of_None split: piece.splits)
  have c: "list_all (\<lambda>(u, d). key_of M d = Some u) M"
    using key_of_unique [OF clean_prompt_numbered(3) [OF assms(3)]]
    by (auto simp: list_all_iff)
  from a b c d show ?thesis by blast
qed

theorem restore_after_clean_prompt_witness:
  "restore_output ''see [01], then [00]''
     (snd (clean_prompt
        ''x [550e8400-e29b-41d4-a716-446655440000] y [6ba7b810-9dad-11d1-80b4-00c04fd430c8]'' ''['' 2))
     ''['' 2
   = Inr ''see [6ba7b810-9dad-11d1-80b4-00c04fd430c8], then [550e8400-e29b-41d4-a716-446655440000]''"
proof -
  let ?T = "''x [550e8400-e29b-41d4-a716-446655440000] y [6ba7b810-9dad-11d1-80b4-00c04fd430c8]''"
  let ?M = "[(''550e8400-e29b-41d4-a716-446655440000'', ''00''),
             (''6ba7b810-9dad-11d1-80b4-00c04fd430c8'', ''01'')]"
  let ?ps = "map Copy ''see '' @ [Span ''01''] @ map Copy '', then '' @ [Span ''00'']"
  have cp: "clean_prompt ?T ''['' 2 = (''x [00] y [01]'', ?M)" by code_simp
  have c: "closing ''['' = '']''" by (simp add: closing_def)
  have cut: "scan_cut ''['' 2 ?ps"
    by (simp add: render_def span_here_def c is_digit_def)
  have vals: "list_all (\<lambda>pc. case pc of Copy x \<Rightarrow> True | Span d \<Rightarrow> d \<in> snd ` set ?M) ?ps"
    by simp
  have r: "render ''['' ?ps = ''see [01], then [00]''" by (simp add: render_def c)
  have "restore_output (render ''['' ?ps) ?M ''['' 2 = Inr (concat (map (restore_piece ''['' ?M) ?ps))"
    using restore_after_clean_prompt [of 2 ?T "''[''" "''x [00] y [01]''" ?M ?ps, OF _ _ cp cut vals]
    by (simp add: MAXREPEAT_def)
  then show ?thesis unfolding r cp by (simp add: c)
qed

theorem restore_after_clean_prompt_counterexample:
  "clean_prompt
     ''[00000000-0000-0000-0000-000000000000][00000000-0000-0000-0000-000000000001][00000000-0000-0000-0000-000000000002][00000000-0000-0000-0000-000000000003][00000000-0000-0000-0000-000000000004][00000000-0000-0000-0000-000000000005][00000000-0000-0000-0000-000000000006][00000000-0000-0000-0000-000000000007][00000000-0000-0000-0000-000000000008][00000000-0000-0000-0000-000000000009][00000000-0000-0000-0000-00000000000a]'' ''['' 1
   = (''[0][1][2][3][4][5][6][7][8][9][10]'',
      [(''00000000-0000-0000-0000-000000000000'', ''0''),
       (''00000000-0000-0000-0000-000000000001'', ''1''),
       (''00000000-0000-0000-0000-000000000002'', ''2''),
       (''00000000-0000-0000-0000-000000000003'', ''3''),
       (''00000000-0000-0000-0000-000000000004'', ''4''),
       (''00000000-0000-0000-0000-000000000005'', ''5''),
       (''00000000-0000-0000-0000-000000000006'', ''6''),
       (''00000000-0000-0000-0000-000000000007'', ''7''),
       (''00000000-0000-0000-0000-000000000008'', ''8''),
       (''00000000-0000-0000-0000-000000000009'', ''9''),
       (''00000000-0000-0000-0000-00000000000a'', ''10'')])
   \<and> restore_output ''[10]''
      [(''00000000-0000-0000-0000-000000000000'', ''0''),
       (''00000000-0000-0000-0000-000000000001'', ''1''),
       (''00000000-0000-0000-0000-000000000002'', ''2''),
       (''00000000-0000-0000-0000-000000000003'', ''3''),
       (''00000000-0000-0000-0000-000000000004'', ''4''),
       (''00000000-0000-0000-0000-000000000005'', ''5''),
       (''00000000-0000-0000-0000-000000000006'', ''6''),
       (''00000000-0000-0000-0000-000000000007'', ''7''),
       (''00000000-0000-0000-0000-000000000008'', ''8''),
       (''00000000-0000-0000-0000-000000000009'', ''9''),
       (''00000000-0000-0000-0000-00000000000a'', ''10'')] ''['' 1
     = Inr ''[10]''"
  by code_simp

section \<open>Configuration\<close>






section \<open>The batch operation\<close>

lemma map_nth_append_old: "list_all (\<lambda>a. a < length h) as \<Longrightarrow> map ((!) (h @ xs)) as = map ((!) h) as"
  by (induction as) (auto simp: nth_append)

lemma process_loop_heap:
  "list_all (\<lambda>a. a < length h) msgs \<Longrightarrow>
   process_loop R h acc am msgs = (h', acc', am') \<Longrightarrow>
   replace_calls R (contents (map ((!) h) msgs)) = (results, R') \<Longrightarrow>
   h' = h @ fill_contents (map ((!) h) msgs) (map fst results)
   \<and> acc' = acc @ [length h..<length h + length msgs]
   \<and> am' = foldl dict_update am (map snd results)"
proof (induction msgs arbitrary: R h acc am results)
  case Nil
  then show ?case by (auto simp: contents_def)
next
  case (Cons a msgs)
  let ?m = "h ! a"
  have a: "a < length h" and rest: "list_all (\<lambda>a. a < length h) msgs"
    using Cons.prems(1) by simp_all
  have rest': "\<And>x. list_all (\<lambda>a. a < length (h @ [x])) msgs"
    using rest by (auto simp: list_all_iff)
  have same: "\<And>x. map ((!) (h @ [x])) msgs = map ((!) h) msgs"
    using rest by (rule map_nth_append_old)
  have upt: "\<And>x. acc @ [length h..<length h + length (a # msgs)] =
      (acc @ [length h]) @ [length (h @ [x])..<length (h @ [x]) + length msgs]"
    by (simp add: upt_rec)
  show ?case
  proof (cases "\<exists>c. ?m ''content'' = Some (Str c)")
    case True
    then obtain c where c: "?m ''content'' = Some (Str c)" by blast
    obtain out mp R1 where ru: "replace_uuids R c = ((out, mp), R1)"
      by (cases "replace_uuids R c") auto
    let ?h2 = "h @ [?m(''content'' \<mapsto> Str out)]"
    have h2: "(h @ [?m])[length h := ((h @ [?m]) ! length h)(''content'' \<mapsto> Str out)] = ?h2"
      by simp
    have loop: "process_loop R1 ?h2 (acc @ [length h]) (dict_update am mp) msgs = (h', acc', am')"
      using Cons.prems(2) c ru h2 by (simp add: Let_def)
    have cs: "contents (map ((!) h) (a # msgs)) = c # contents (map ((!) h) msgs)"
      using c by (simp add: contents_def)
    obtain rs where rc: "replace_calls R1 (contents (map ((!) h) msgs)) = (rs, R')"
      and res: "results = (out, mp) # rs"
      using Cons.prems(3) ru unfolding cs by (auto split: prod.splits)
    have rc': "replace_calls R1 (contents (map ((!) ?h2) msgs)) = (rs, R')"
      unfolding same by (rule rc)
    note ih = Cons.IH [OF rest' loop rc']
    have fc: "fill_contents (map ((!) h) (a # msgs)) (map fst results) =
        ?m(''content'' \<mapsto> Str out) # fill_contents (map ((!) h) msgs) (map fst rs)"
      using c res by simp
    have g1: "h' = h @ fill_contents (map ((!) h) (a # msgs)) (map fst results)"
      using ih unfolding fc same by simp
    have g2: "acc' = acc @ [length h..<length h + length (a # msgs)]"
      unfolding upt [of "?m(''content'' \<mapsto> Str out)"] using ih by blast
    have g3: "am' = foldl dict_update am (map snd results)"
      using ih by (simp add: res)
    show ?thesis using g1 g2 g3 by blast
  next
    case False
    then have nc: "(case ?m ''content'' of Some (Str c) \<Rightarrow> [c] | _ \<Rightarrow> []) = []"
      by (auto split: option.splits pyval.splits)
    let ?h2 = "h @ [?m]"
    have loop: "process_loop R ?h2 (acc @ [length h]) am msgs = (h', acc', am')"
      using Cons.prems(2) False by (auto simp: Let_def split: option.splits pyval.splits)
    have cs: "contents (map ((!) h) (a # msgs)) = contents (map ((!) h) msgs)"
      using nc by (simp add: contents_def)
    have rc': "replace_calls R (contents (map ((!) ?h2) msgs)) = (results, R')"
      using Cons.prems(3) unfolding cs same .
    note ih = Cons.IH [OF rest' loop rc']
    have fc: "fill_contents (map ((!) h) (a # msgs)) (map fst results) =
        ?m # fill_contents (map ((!) h) msgs) (map fst results)"
      using False by (auto split: option.splits pyval.splits)
    have g1: "h' = h @ fill_contents (map ((!) h) (a # msgs)) (map fst results)"
      using ih unfolding fc same by simp
    have g2: "acc' = acc @ [length h..<length h + length (a # msgs)]"
      unfolding upt [of ?m] using ih by blast
    have g3: "am' = foldl dict_update am (map snd results)"
      using ih by blast
    show ?thesis using g1 g2 g3 by blast
  qed
qed

lemma process_loop_frame:
  "process_loop R h acc am msgs = (h', acc', am') \<Longrightarrow>
   take (length h) h' = h \<and> acc' = acc @ [length h..<length h + length msgs]"
proof (induction msgs arbitrary: R h acc am)
  case Nil
  then show ?case by simp
next
  case (Cons a msgs)
  let ?m = "h ! a"
  have upt: "\<And>x. acc @ [length h..<length h + length (a # msgs)] =
      (acc @ [length h]) @ [length (h @ [x])..<length (h @ [x]) + length msgs]"
    by (simp add: upt_rec)
  have tk: "\<And>x. take (length (h @ [x])) h' = h @ [x] \<Longrightarrow> take (length h) h' = h"
    by (metis append_eq_conv_conj append_take_drop_id append_assoc)
  show ?case
  proof (cases "\<exists>c. ?m ''content'' = Some (Str c)")
    case True
    then obtain c where c: "?m ''content'' = Some (Str c)" by blast
    obtain out mp R1 where ru: "replace_uuids R c = ((out, mp), R1)"
      by (cases "replace_uuids R c") auto
    let ?h2 = "h @ [?m(''content'' \<mapsto> Str out)]"
    have loop: "process_loop R1 ?h2 (acc @ [length h]) (dict_update am mp) msgs = (h', acc', am')"
      using Cons.prems c ru by (simp add: Let_def)
    note ih = Cons.IH [OF loop]
    show ?thesis
      unfolding upt [of "?m(''content'' \<mapsto> Str out)"] using ih tk by blast
  next
    case False
    have loop: "process_loop R (h @ [?m]) (acc @ [length h]) am msgs = (h', acc', am')"
      using Cons.prems False by (auto simp: Let_def split: option.splits pyval.splits)
    note ih = Cons.IH [OF loop]
    show ?thesis
      unfolding upt [of ?m] using ih tk by blast
  qed
qed

lemma fill_contents_map:
  "fill_contents ms (map f (contents ms)) =
     map (\<lambda>m. case m ''content'' of Some (Str c) \<Rightarrow> m(''content'' \<mapsto> Str (f c)) | _ \<Rightarrow> m) ms"
proof (induction ms)
  case Nil
  then show ?case by simp
next
  case (Cons m ms)
  have "contents (m # ms) = (case m ''content'' of Some (Str c) \<Rightarrow> [c] | _ \<Rightarrow> []) @ contents ms"
    by (simp add: contents_def)
  with Cons show ?case
    by (auto split: option.splits pyval.splits)
qed

lemma length_fill_contents [simp]: "length (fill_contents ms outs) = length ms"
  by (induction ms outs rule: fill_contents.induct)
    (auto split: option.splits pyval.splits list.splits)

lemma map_nth_new: "map ((!) (h @ xs)) [length h..<length h + length xs] = xs"
  by (rule nth_equalityI) (auto simp: nth_append)

lemma dict_set_same: "distinct (map fst A) \<Longrightarrow> (k, v) \<in> set A \<Longrightarrow> dict_set k v A = A"
  by (induction A) (auto simp: rev_image_eqI)

lemma dict_update_old:
  "distinct (map fst A) \<Longrightarrow> set X \<subseteq> set A \<Longrightarrow> dict_update A X = A"
  by (induction X) (auto simp: dict_update_def dict_set_same)

lemma dict_update_new: "distinct (map fst (A @ B)) \<Longrightarrow> dict_update A B = A @ B"
proof (induction B arbitrary: A)
  case Nil
  then show ?case by (simp add: dict_update_def)
next
  case (Cons kv B)
  obtain k v where kv: "kv = (k, v)" by (cases kv)
  have "map_of A k = None"
    using Cons.prems kv by (auto simp: map_of_eq_None_iff)
  then have s: "dict_set k v A = A @ [(k, v)]" by (rule dict_set_absent)
  have "distinct (map fst ((A @ [(k, v)]) @ B))" using Cons.prems kv by simp
  from Cons.IH [OF this] show ?case
    by (simp add: dict_update_def kv s)
qed

lemma dict_update_extend: "distinct (map fst (A @ B)) \<Longrightarrow> dict_update A (A @ B) = A @ B"
proof -
  assume d: "distinct (map fst (A @ B))"
  then have "distinct (map fst A)" by simp
  then have "dict_update A A = A" by (rule dict_update_old) simp
  moreover have "dict_update A (A @ B) = dict_update (dict_update A A) B"
    by (simp add: dict_update_def)
  ultimately show ?thesis using dict_update_new [OF d] by simp
qed

lemma replace_calls_snapshots:
  "numbered R \<Longrightarrow> replace_calls R texts = (results, R') \<Longrightarrow>
   foldl dict_update (uuid_mapping R) (map snd results) = uuid_mapping R'"
proof (induction texts arbitrary: R results)
  case Nil
  then show ?case by auto
next
  case (Cons t texts)
  obtain out R1 where e: "emit replace_match R (tokens (pattern R) t) = (out, R1)"
    by (cases "emit replace_match R (tokens (pattern R) t)")
  then have ru: "replace_uuids R t = ((out, uuid_mapping R1), R1)"
    by (simp add: replace_uuids_emit)
  obtain rs where rc: "replace_calls R1 texts = (rs, R')" and res: "results = (out, uuid_mapping R1) # rs"
    using Cons.prems(2) ru by (auto split: prod.splits)
  have n1: "numbered R1" using emit_replace_numbered [OF Cons.prems(1) e] by blast
  obtain extra where x: "uuid_mapping R1 = uuid_mapping R @ extra"
    using emit_replace_grows [OF e] by blast
  have "distinct (map fst (uuid_mapping R @ extra))"
    using n1 x by (simp add: numbered_def)
  then have "dict_update (uuid_mapping R) (uuid_mapping R1) = uuid_mapping R1"
    unfolding x by (rule dict_update_extend)
  then show ?case
    using Cons.IH [OF n1 rc] by (simp add: res)
qed

text \<open>
  C7. For message references into the store, \<open>process_messages\<close> returns as many
  references, in the same order. The object behind the \<open>i\<close>-th is the \<open>i\<close>-th input
  message, with a \<open>content\<close> that is a \<open>str\<close> replaced by that string with its
  identifiers replaced through the returned mapping, and nothing else changed: a message
  without \<open>content\<close> or with a \<open>content\<close> that is not a \<open>str\<close> is equal to its input, and
  so is every other field. One mapping serves all messages, so an identifier gets the
  same placeholder wherever it occurs; it is the mapping of the identifiers of all
  \<open>str\<close> contents, in first-seen order, numbered from 0.
\<close>

theorem process_messages_batch:
  assumes "list_all (\<lambda>a. a < length h) messages"
  shows "case process_messages h messages s n of
           (h', processed, all_mappings) \<Rightarrow>
             length processed = length messages
             \<and> map ((!) h') processed =
                 map (\<lambda>a. transform (UUIDReplacer_init s n) all_mappings (h ! a)) messages
             \<and> all_mappings =
                 expected_mapping n
                   (concat (map (\<lambda>c. identifiers (tokens (pattern (UUIDReplacer_init s n)) c))
                      (contents (map ((!) h) messages))))
             \<and> list_all2 (\<lambda>a b. \<forall>k. k \<noteq> ''content'' \<longrightarrow> (h' ! b) k = (h ! a) k)
                 messages processed"
proof -
  let ?R0 = "UUIDReplacer_init s n"
  let ?cs = "contents (map ((!) h) messages)"
  obtain h' processed am where pl: "process_loop ?R0 h [] [] messages = (h', processed, am)"
    by (cases "process_loop ?R0 h [] [] messages") auto
  obtain results R' where rc: "replace_calls ?R0 ?cs = (results, R')"
    by (cases "replace_calls ?R0 ?cs")
  note f = process_loop_heap [OF assms pl rc]
  have k0: "map fst (uuid_mapping ?R0) = first_seen []"
    by (simp add: UUIDReplacer_init_def first_seen_def)
  have m0: "uuid_mapping ?R0 = []" and n0: "nr_digits ?R0 = n"
    by (simp_all add: UUIDReplacer_init_def)
  note g = replace_calls_numbered [OF numbered_init k0 rc]
  have num: "numbered R'" and cfg: "nr_digits R' = n"
    using g n0 by (simp_all add: same_config_def)
  have am: "am = uuid_mapping R'"
    using f replace_calls_snapshots [OF numbered_init rc] by (simp add: m0)
  have keys: "map fst (uuid_mapping R') =
      first_seen (concat (map (\<lambda>c. identifiers (tokens (pattern ?R0) c)) ?cs))"
    using g by simp
  have ex: "am = expected_mapping n (concat (map (\<lambda>c. identifiers (tokens (pattern ?R0) c)) ?cs))"
    using numbered_expected [OF num keys] cfg am by simp
  have outs: "map fst results = map (substitute ?R0 am) ?cs"
    using g am by simp
  have new: "fill_contents (map ((!) h) messages) (map fst results) =
      map (\<lambda>a. transform ?R0 am (h ! a)) messages"
    unfolding outs fill_contents_map by (simp add: transform_def)
  have h': "h' = h @ map (\<lambda>a. transform ?R0 am (h ! a)) messages"
    using f new by simp
  have p: "processed = [length h..<length h + length messages]"
    using f by simp
  have objs: "map ((!) h') processed = map (\<lambda>a. transform ?R0 am (h ! a)) messages"
    unfolding h' p
    using map_nth_new [of h "map (\<lambda>a. transform ?R0 am (h ! a)) messages"] by simp
  have fr: "\<And>m k. k \<noteq> ''content'' \<Longrightarrow> transform ?R0 am m k = m k"
    by (auto simp: transform_def split: option.splits pyval.splits)
  have "list_all2 (\<lambda>a m'. \<forall>k. k \<noteq> ''content'' \<longrightarrow> m' k = (h ! a) k)
          messages (map (\<lambda>a. transform ?R0 am (h ! a)) messages)"
    by (simp add: list_all2_conv_all_nth fr)
  then have frame: "list_all2 (\<lambda>a b. \<forall>k. k \<noteq> ''content'' \<longrightarrow> (h' ! b) k = (h ! a) k)
                 messages processed"
    unfolding objs [symmetric] by (auto simp: list_all2_conv_all_nth)
  have "length processed = length messages" using p by simp
  then show ?thesis
    using objs ex frame by (simp add: process_messages_def pl)
qed

text \<open>
  C10. \<open>process_messages\<close> leaves every object that was in the store as it was: the
  store only grows, by one new object per message, and the references returned are
  those of the new objects. So each input message is unchanged, and a transformed
  \<open>content\<close> is written to the copy only.
\<close>

theorem process_messages_input_unchanged:
  "case process_messages h messages s n of
     (h', processed, all_mappings) \<Rightarrow>
       take (length h) h' = h
       \<and> processed = [length h..<length h + length messages]
       \<and> (list_all (\<lambda>a. a < length h) messages \<longrightarrow>
            map ((!) h') messages = map ((!) h) messages)"
proof -
  obtain h' processed am where
    pl: "process_loop (UUIDReplacer_init s n) h [] [] messages = (h', processed, am)"
    by (cases "process_loop (UUIDReplacer_init s n) h [] [] messages") auto
  note f = process_loop_frame [OF pl]
  have t: "take (length h) h' = h" using f by blast
  have "list_all (\<lambda>a. a < length h) messages \<longrightarrow> map ((!) h') messages = map ((!) h) messages"
  proof
    assume "list_all (\<lambda>a. a < length h) messages"
    then have "map ((!) (take (length h) h')) messages = map ((!) h') messages"
      by (auto simp: list_all_iff)
    then show "map ((!) h') messages = map ((!) h) messages" using t by simp
  qed
  then show ?thesis using f by (simp add: process_messages_def pl)
qed

theorem process_messages_batch_witness:
  "list_all (\<lambda>a. a < length
       [[''role'' \<mapsto> Str ''user'', ''content'' \<mapsto> Str ''[550e8400-e29b-41d4-a716-446655440000] hi''],
        [''role'' \<mapsto> Str ''system'', ''content'' \<mapsto> NonStr (5::nat)],
        [''role'' \<mapsto> Str ''user''],
        [''content'' \<mapsto> Str ''again [550e8400-e29b-41d4-a716-446655440000]'']]) [0, 1, 2, 3]
   \<and> (case process_messages
       [[''role'' \<mapsto> Str ''user'', ''content'' \<mapsto> Str ''[550e8400-e29b-41d4-a716-446655440000] hi''],
        [''role'' \<mapsto> Str ''system'', ''content'' \<mapsto> NonStr (5::nat)],
        [''role'' \<mapsto> Str ''user''],
        [''content'' \<mapsto> Str ''again [550e8400-e29b-41d4-a716-446655440000]'']] [0, 1, 2, 3] ''['' 2 of
         (h', processed, all_mappings) \<Rightarrow>
           length processed = length [0, 1, 2, 3::nat]
           \<and> processed = [4, 5, 6, 7]
           \<and> all_mappings = [(''550e8400-e29b-41d4-a716-446655440000'', ''00'')]
           \<and> (h' ! 4) ''content'' = Some (Str ''[00] hi'')
           \<and> (h' ! 4) ''role'' = Some (Str ''user'')
           \<and> (h' ! 5) ''content'' = Some (NonStr 5)
           \<and> (h' ! 6) ''content'' = None
           \<and> (h' ! 7) ''content'' = Some (Str ''again [00]''))"
proof (intro conjI)
  let ?H = "[[''role'' \<mapsto> Str ''user'', ''content'' \<mapsto> Str ''[550e8400-e29b-41d4-a716-446655440000] hi''],
        [''role'' \<mapsto> Str ''system'', ''content'' \<mapsto> NonStr (5::nat)],
        [''role'' \<mapsto> Str ''user''],
        [''content'' \<mapsto> Str ''again [550e8400-e29b-41d4-a716-446655440000]'']]"
  show ok: "list_all (\<lambda>a. a < length ?H) [0, 1, 2, 3]" by simp
  obtain h' processed am where pm: "process_messages ?H [0, 1, 2, 3] ''['' 2 = (h', processed, am)"
    by (cases "process_messages ?H [0, 1, 2, 3] ''['' 2") auto
  have len: "length processed = length [0, 1, 2, 3::nat]"
    using process_messages_batch [OF ok, of "''[''" 2] unfolding pm by simp
  have ev: "case process_messages ?H [0, 1, 2, 3] ''['' 2 of
         (h', processed, all_mappings) \<Rightarrow>
           processed = [4, 5, 6, 7]
           \<and> all_mappings = [(''550e8400-e29b-41d4-a716-446655440000'', ''00'')]
           \<and> (h' ! 4) ''content'' = Some (Str ''[00] hi'')
           \<and> (h' ! 4) ''role'' = Some (Str ''user'')
           \<and> (h' ! 5) ''content'' = Some (NonStr 5)
           \<and> (h' ! 6) ''content'' = None
           \<and> (h' ! 7) ''content'' = Some (Str ''again [00]'')"
    by code_simp
  show "case process_messages ?H [0, 1, 2, 3] ''['' 2 of
         (h', processed, all_mappings) \<Rightarrow>
           length processed = length [0, 1, 2, 3::nat]
           \<and> processed = [4, 5, 6, 7]
           \<and> all_mappings = [(''550e8400-e29b-41d4-a716-446655440000'', ''00'')]
           \<and> (h' ! 4) ''content'' = Some (Str ''[00] hi'')
           \<and> (h' ! 4) ''role'' = Some (Str ''user'')
           \<and> (h' ! 5) ''content'' = Some (NonStr 5)
           \<and> (h' ! 6) ''content'' = None
           \<and> (h' ! 7) ''content'' = Some (Str ''again [00]'')"
    using len ev unfolding pm by blast
qed

theorem process_messages_input_unchanged_witness:
  "list_all (\<lambda>a. a < length
       [[''role'' \<mapsto> Str ''user'', ''content'' \<mapsto> Str ''[550e8400-e29b-41d4-a716-446655440000] hi''],
        [''role'' \<mapsto> Str ''system'', ''content'' \<mapsto> NonStr (5::nat)]]) [0, 1, 0]
   \<and> (case process_messages
       [[''role'' \<mapsto> Str ''user'', ''content'' \<mapsto> Str ''[550e8400-e29b-41d4-a716-446655440000] hi''],
        [''role'' \<mapsto> Str ''system'', ''content'' \<mapsto> NonStr (5::nat)]] [0, 1, 0] ''['' 2 of
         (h', processed, all_mappings) \<Rightarrow>
           map ((!) h') [0, 1, 0] =
             map ((!) [[''role'' \<mapsto> Str ''user'', ''content'' \<mapsto> Str ''[550e8400-e29b-41d4-a716-446655440000] hi''],
                       [''role'' \<mapsto> Str ''system'', ''content'' \<mapsto> NonStr (5::nat)]]) [0, 1, 0]
           \<and> processed = [2, 3, 4]
           \<and> (h' ! 0) ''content'' = Some (Str ''[550e8400-e29b-41d4-a716-446655440000] hi'')
           \<and> (h' ! 2) ''content'' = Some (Str ''[00] hi''))"
proof (intro conjI)
  let ?H = "[[''role'' \<mapsto> Str ''user'', ''content'' \<mapsto> Str ''[550e8400-e29b-41d4-a716-446655440000] hi''],
        [''role'' \<mapsto> Str ''system'', ''content'' \<mapsto> NonStr (5::nat)]]"
  show ok: "list_all (\<lambda>a. a < length ?H) [0, 1, 0]" by simp
  obtain h' processed am where pm: "process_messages ?H [0, 1, 0] ''['' 2 = (h', processed, am)"
    by (cases "process_messages ?H [0, 1, 0] ''['' 2") auto
  have fr: "map ((!) h') [0, 1, 0] = map ((!) ?H) [0, 1, 0]"
    using process_messages_input_unchanged [of ?H "[0, 1, 0]" "''[''" 2] ok unfolding pm by blast
  have ev: "case process_messages ?H [0, 1, 0] ''['' 2 of
         (h', processed, all_mappings) \<Rightarrow>
           processed = [2, 3, 4]
           \<and> (h' ! 0) ''content'' = Some (Str ''[550e8400-e29b-41d4-a716-446655440000] hi'')
           \<and> (h' ! 2) ''content'' = Some (Str ''[00] hi'')"
    by code_simp
  show "case process_messages ?H [0, 1, 0] ''['' 2 of
         (h', processed, all_mappings) \<Rightarrow>
           map ((!) h') [0, 1, 0] = map ((!) ?H) [0, 1, 0]
           \<and> processed = [2, 3, 4]
           \<and> (h' ! 0) ''content'' = Some (Str ''[550e8400-e29b-41d4-a716-446655440000] hi'')
           \<and> (h' ! 2) ''content'' = Some (Str ''[00] hi'')"
    using fr ev unfolding pm by blast
qed

section \<open>Upper and lower case, anywhere in a text\<close>

lemma clean_prompt_characterised:
  assumes "clean_prompt T s n = (C, M)"
  shows "map fst M = first_seen (identifiers (tokens (pattern (UUIDReplacer_init s n)) T))"
    and "C = substitute (UUIDReplacer_init s n) M T"
proof -
  let ?R0 = "UUIDReplacer_init s n"
  obtain out R where e: "emit replace_match ?R0 (tokens (pattern ?R0) T) = (out, R)"
    by (cases "emit replace_match ?R0 (tokens (pattern ?R0) T)")
  then have M: "M = uuid_mapping R" and C: "C = out"
    using assms by (simp_all add: clean_prompt_def replace_uuids_emit)
  have "map fst (uuid_mapping ?R0) = []" by (simp add: UUIDReplacer_init_def)
  then show "map fst M = first_seen (identifiers (tokens (pattern ?R0) T))"
    using emit_replace_numbered [OF numbered_init e] M by simp
  show "C = substitute ?R0 M T"
    using emit_replace_output [OF e, of M] M C by (simp add: substitute_def)
qed

lemma distinct_values_keys:
  fixes M :: pydict
  assumes "distinct (map snd M)" and "map_of M a = Some p" and "map_of M b = Some p"
  shows "a = b"
proof -
  have "(a, p) \<in> set M" "(b, p) \<in> set M"
    using assms(2,3) by (auto dest: map_of_SomeD)
  then have "key_of M p = Some a" "key_of M p = Some b"
    using key_of_unique [OF assms(1)] by blast+
  then show ?thesis by simp
qed

text \<open>
  C8. The pattern accepts hexadecimal digits of either case, and the mapping is keyed by
  the string as written. For a UUID with at least one letter: a text holding its
  lower-case and its upper-case writing, each delimited, has both spans replaced, and
  the mapping holds two keys with two different placeholders; and in any text in which
  the scan meets both writings, every span is replaced through the returned mapping,
  which gives the two writings two different placeholders.
\<close>

theorem clean_prompt_case_sensitive_keys:
  assumes "uuid_shape u" and "map lower_hex u \<noteq> map upper_hex u"
  shows "clean_prompt (s @ map lower_hex u @ closing s @ s @ map upper_hex u @ closing s) s n =
           (s @ zfill (py_str 0) n @ closing s @ s @ zfill (py_str 1) n @ closing s,
            [(map lower_hex u, zfill (py_str 0) n), (map upper_hex u, zfill (py_str 1) n)])
         \<and> zfill (py_str 0) n \<noteq> zfill (py_str 1) n
         \<and> (clean_prompt T s n = (C, M)
              \<and> map lower_hex u \<in> set (identifiers (tokens (pattern (UUIDReplacer_init s n)) T))
              \<and> map upper_hex u \<in> set (identifiers (tokens (pattern (UUIDReplacer_init s n)) T))
             \<longrightarrow> C = substitute (UUIDReplacer_init s n) M T
                 \<and> (\<exists>p q. map_of M (map lower_hex u) = Some p
                          \<and> map_of M (map upper_hex u) = Some q \<and> p \<noteq> q))"
proof -
  have a: "uuid_shape (map lower_hex u)"
  proof (rule uuid_shape_map [OF assms(1)])
    show "lower_hex CHR ''-'' = CHR ''-''" by (simp add: lower_hex_def)
  qed (rule is_hex_lower)
  have b: "uuid_shape (map upper_hex u)"
  proof (rule uuid_shape_map [OF assms(1)])
    show "upper_hex CHR ''-'' = CHR ''-''" by (simp add: upper_hex_def)
  qed (rule is_hex_upper)
  have "placeholder n 0 \<noteq> placeholder n 1"
    using placeholder_inj [of n 0 1] by auto
  then have first: "clean_prompt (s @ map lower_hex u @ closing s @ s @ map upper_hex u @ closing s) s n =
           (s @ zfill (py_str 0) n @ closing s @ s @ zfill (py_str 1) n @ closing s,
            [(map lower_hex u, zfill (py_str 0) n), (map upper_hex u, zfill (py_str 1) n)])
         \<and> zfill (py_str 0) n \<noteq> zfill (py_str 1) n"
    using clean_prompt_two_spans [OF a b assms(2), of s n] by (simp add: placeholder_def)
  have anywhere: "clean_prompt T s n = (C, M)
              \<and> map lower_hex u \<in> set (identifiers (tokens (pattern (UUIDReplacer_init s n)) T))
              \<and> map upper_hex u \<in> set (identifiers (tokens (pattern (UUIDReplacer_init s n)) T))
             \<longrightarrow> C = substitute (UUIDReplacer_init s n) M T
                 \<and> (\<exists>p q. map_of M (map lower_hex u) = Some p
                          \<and> map_of M (map upper_hex u) = Some q \<and> p \<noteq> q)"
  proof
    assume h: "clean_prompt T s n = (C, M)
              \<and> map lower_hex u \<in> set (identifiers (tokens (pattern (UUIDReplacer_init s n)) T))
              \<and> map upper_hex u \<in> set (identifiers (tokens (pattern (UUIDReplacer_init s n)) T))"
    then have cp: "clean_prompt T s n = (C, M)" by blast
    note ch = clean_prompt_characterised [OF cp]
    have "map lower_hex u \<in> set (map fst M)" "map upper_hex u \<in> set (map fst M)"
      using h unfolding ch(1) by simp_all
    then obtain p q where p: "map_of M (map lower_hex u) = Some p"
      and q: "map_of M (map upper_hex u) = Some q"
      by (metis map_of_eq_None_iff not_Some_eq set_map)
    have "p \<noteq> q"
      using distinct_values_keys [OF clean_prompt_numbered(3) [OF cp], of "map lower_hex u" p "map upper_hex u"]
        p q assms(2) by auto
    with p q ch(2) show "C = substitute (UUIDReplacer_init s n) M T
                 \<and> (\<exists>p q. map_of M (map lower_hex u) = Some p
                          \<and> map_of M (map upper_hex u) = Some q \<and> p \<noteq> q)"
      by blast
  qed
  from first anywhere show ?thesis by blast
qed

theorem clean_prompt_case_sensitive_keys_witness:
  "clean_prompt ''[550e8400-e29b-41d4-a716-446655440000][550E8400-E29B-41D4-A716-446655440000]'' ''['' 2
     = (''[00][01]'',
        [(''550e8400-e29b-41d4-a716-446655440000'', ''00''),
         (''550E8400-E29B-41D4-A716-446655440000'', ''01'')])"
proof -
  let ?u = "''550e8400-E29B-41d4-a716-446655440000''"
  have s: "uuid_shape ?u" by (simp add: uuid_shape_def is_hex_def)
  have lo: "map lower_hex ?u = ''550e8400-e29b-41d4-a716-446655440000''"
    by (simp add: lower_hex_def)
  have up: "map upper_hex ?u = ''550E8400-E29B-41D4-A716-446655440000''"
    by (simp add: upper_hex_def)
  have ne: "map lower_hex ?u \<noteq> map upper_hex ?u" unfolding lo up by simp
  have z: "zfill (py_str 0) 2 = ''00''" "zfill (py_str 1) 2 = ''01''"
    by (simp_all add: zfill_def py_str_def digits_of.simps digit_char_def)
  show ?thesis
    using conjunct1 [OF clean_prompt_case_sensitive_keys [OF s ne, of "''[''" 2]]
    unfolding lo up z by (simp add: closing_def)
qed

end
